theory Spec2Isabelle
  imports Main "HOL-Library.Char_ord" "HOL-Library.List_Lexorder" "HOL-Library.AList"
    "HOL-Library.Sublist"
begin

section \<open>Strings\<close>

text \<open>
  Python strings are modelled as \<open>string\<close> (lists of bytes); comparison is the
  lexicographic order on code points, which \<open>Char_ord\<close> and \<open>List_Lexorder\<close>
  provide for ASCII text.
\<close>

text \<open>\<^verbatim>\<open>sep.join(xs)\<close>\<close>

fun join :: "string \<Rightarrow> string list \<Rightarrow> string" where
  "join sep [] = []"
| "join sep [x] = x"
| "join sep (x # y # ys) = x @ sep @ join sep (y # ys)"

text \<open>\<^verbatim>\<open>s.split(c)\<close> for a one-character separator: never the empty list.\<close>

fun split_on :: "char \<Rightarrow> string \<Rightarrow> string list" where
  "split_on sep [] = [[]]"
| "split_on sep (c # cs) =
     (if c = sep then [] # split_on sep cs
      else (case split_on sep cs of [] \<Rightarrow> [[c]] | w # ws \<Rightarrow> (c # w) # ws))"

text \<open>\<^verbatim>\<open>s.startswith(p)\<close>\<close>

definition startswith :: "string \<Rightarrow> string \<Rightarrow> bool" where
  "startswith s p = (take (length p) s = p)"

text \<open>Four spaces per indentation level: \<^verbatim>\<open>"    " * indentlevel\<close>.\<close>

definition indent :: "nat \<Rightarrow> string" where
  "indent n = concat (replicate n ''    '')"

definition triple_quote :: string where
  "triple_quote = [CHR 0x22, CHR 0x22, CHR 0x22]"

section \<open>Type descriptors, values and classes\<close>

text \<open>
  A type descriptor is what \<^verbatim>\<open>get_typing_imports\<close> and \<^verbatim>\<open>type_to_code_str\<close>
  inspect of an annotation object:
  \<^item> \<open>UnionT args\<close>: has \<^verbatim>\<open>__origin__\<close>, which is \<^verbatim>\<open>Union\<close>; \<open>args\<close> is \<^verbatim>\<open>__args__\<close>;
  \<^item> \<open>DictT k v\<close>: \<^verbatim>\<open>__origin__\<close> is \<^verbatim>\<open>Dict\<close>, with \<^verbatim>\<open>__args__ = (k, v)\<close>;
  \<^item> \<open>AnyOriginT args\<close>: \<^verbatim>\<open>__origin__\<close> is \<^verbatim>\<open>Any\<close>;
  \<^item> \<open>GenericT nm md args\<close>: any other origin, with the origin's \<^verbatim>\<open>__name__\<close> and
    \<^verbatim>\<open>__module__\<close>;
  \<^item> \<open>NoArgsT\<close>: has an \<^verbatim>\<open>__origin__\<close>, which is not \<^verbatim>\<open>Any\<close>, and no \<^verbatim>\<open>__args__\<close>
    (a bare \<^verbatim>\<open>typing.List\<close>);
  \<^item> \<open>NoneT\<close>: \<^verbatim>\<open>type(None)\<close>;
  \<^item> \<open>AnyT\<close>: \<^verbatim>\<open>typing.Any\<close> itself (its name is \<^verbatim>\<open>Any\<close>);
  \<^item> \<open>SpecialT nm\<close>: an object without origin that has \<^verbatim>\<open>_name\<close>;
  \<^item> \<open>ClassT nm\<close>: an object without origin and without \<^verbatim>\<open>_name\<close> that has
    \<^verbatim>\<open>__name__\<close> (a class, a type variable);
  \<^item> \<open>BareT\<close>: an object with none of \<^verbatim>\<open>__origin__\<close>, \<^verbatim>\<open>_name\<close> and \<^verbatim>\<open>__name__\<close>, as
    are the arguments of a parameterized type that are no types: the \<^verbatim>\<open>'a'\<close> of
    \<^verbatim>\<open>Literal['a']\<close>, the \<^verbatim>\<open>...\<close> of \<^verbatim>\<open>Tuple[int, ...]\<close>, a forward reference,
    the \<^verbatim>\<open>int | None\<close> of \<^verbatim>\<open>List[int | None]\<close>.
\<close>

datatype ty =
    UnionT "ty list"
  | DictT ty ty
  | AnyOriginT "ty list"
  | GenericT string string "ty list"
  | NoArgsT
  | NoneT
  | AnyT
  | SpecialT string
  | ClassT string
  | BareT

text \<open>A runtime type, as far as the code reads it: \<^verbatim>\<open>__name__\<close> and \<^verbatim>\<open>__module__\<close>.\<close>

record pytype =
  ty_name :: string
  ty_module :: string

text \<open>
  Values. An \<open>Atom\<close> is a value of a type that carries no settable attributes: a
  number, a boolean, a string, \<^verbatim>\<open>None\<close>, an opaque object identified by a number, or
  a \<^verbatim>\<open>property\<close> object that has a getter only, given by the value that its getter
  returns. The attributes that built-in values have of their own are not modelled,
  nor are the functions of a class body, which an instance reads as bound methods.

  An \<open>Obj\<close> is an instance: the type of its class, the attributes of its class (the
  names of \<^verbatim>\<open>dir\<close> on the class with the values that \<^verbatim>\<open>getattr\<close> on the class gives,
  so a property is there as the \<^verbatim>\<open>property\<close> object), and its own attributes (its
  \<^verbatim>\<open>__dict__\<close>), in insertion order. Values are compared by content; two references
  to one mutable object are two values here.
\<close>

datatype atom = IntV int | BoolV bool | StrV string | NoneV | Opaque pytype nat | Property atom

datatype val = Atom atom | Obj pytype "(string \<times> val) list" "(string \<times> val) list"

fun atom_type :: "atom \<Rightarrow> pytype" where
  "atom_type (IntV i) = \<lparr>ty_name = ''int'', ty_module = ''builtins''\<rparr>"
| "atom_type (BoolV b) = \<lparr>ty_name = ''bool'', ty_module = ''builtins''\<rparr>"
| "atom_type (StrV s) = \<lparr>ty_name = ''str'', ty_module = ''builtins''\<rparr>"
| "atom_type NoneV = \<lparr>ty_name = ''NoneType'', ty_module = ''builtins''\<rparr>"
| "atom_type (Opaque t n) = t"
| "atom_type (Property r) = \<lparr>ty_name = ''property'', ty_module = ''builtins''\<rparr>"

text \<open>\<^verbatim>\<open>type(v)\<close>\<close>

fun type_of :: "val \<Rightarrow> pytype" where
  "type_of (Atom a) = atom_type a"
| "type_of (Obj t cattrs dict) = t"

text \<open>
  An annotation, as the declared-fields loop of \<^verbatim>\<open>output_stub\<close> distinguishes it:
  a class (\<^verbatim>\<open>isinstance(t, type)\<close>), an object whose \<^verbatim>\<open>str\<close> starts with
  \<^verbatim>\<open>typing.\<close> (given by its descriptor), or anything else (given by its \<^verbatim>\<open>str\<close> and
  its \<^verbatim>\<open>__module__\<close>, when it has one).
\<close>

datatype ann = AClass pytype | ATyping ty | AOther string "string option"

text \<open>
  A section class: its own type, the \<^verbatim>\<open>Attributes\<close> entries that numpydoc parses from
  its docstring (name and description lines; \<open>None\<close> when \<^verbatim>\<open>__doc__\<close> is \<^verbatim>\<open>None\<close>),
  the names of \<^verbatim>\<open>dir(cobj)\<close> with the values \<^verbatim>\<open>getattr\<close> gives,
  \<^verbatim>\<open>__annotations__\<close> when the class has it, and what calling the class without
  arguments does: \<open>Some assigns\<close> when \<^verbatim>\<open>__init__\<close> runs the assignments
  \<^verbatim>\<open>self.name = value\<close> of \<open>assigns\<close> in order (none for a class without
  \<^verbatim>\<open>__init__\<close> of its own), \<open>None\<close> when the call raises \<^verbatim>\<open>TypeError\<close> (an
  \<^verbatim>\<open>__init__\<close> with required parameters).
\<close>

record cls =
  cls_type :: pytype
  cls_doc :: "(string \<times> string list) list option"
  cls_attrs :: "(string \<times> val) list"
  cls_annotations :: "(string \<times> ann) list option"
  cls_init :: "(string \<times> val) list option"

datatype error =
    TypeError
  | AttributeError
  | IndexError
  | ValueError string cls cls

text \<open>A loop whose body may raise: the first error ends it.\<close>

fun for_loop :: "('a \<Rightarrow> 's \<Rightarrow> error + 's) \<Rightarrow> 'a list \<Rightarrow> 's \<Rightarrow> error + 's" where
  "for_loop body [] s = Inr s"
| "for_loop body (x # xs) s =
     (case body x s of Inl e \<Rightarrow> Inl e | Inr s' \<Rightarrow> for_loop body xs s')"

section \<open>The type renderer\<close>

text \<open>
  \<^verbatim>\<open>get_typing_imports\<close>, with \<^verbatim>\<open>sum([get_typing_imports(arg) for arg in args], [])\<close>
  as \<open>get_typing_imports_sum\<close>. Reading \<^verbatim>\<open>__args__\<close> where there is none raises
  \<^verbatim>\<open>AttributeError\<close>.
\<close>

fun get_typing_imports :: "ty \<Rightarrow> error + string list"
  and get_typing_imports_sum :: "ty list \<Rightarrow> error + string list" where
  "get_typing_imports (UnionT args) =
     (case get_typing_imports_sum args of
        Inl e \<Rightarrow> Inl e
      | Inr names \<Rightarrow>
          Inr ((if NoneT \<in> set args \<and> length args = 2 then [''Optional''] else [''Union''])
               @ names))"
| "get_typing_imports (DictT k v) =
     (case get_typing_imports k of
        Inl e \<Rightarrow> Inl e
      | Inr names \<Rightarrow>
          (case get_typing_imports v of
             Inl e \<Rightarrow> Inl e
           | Inr names' \<Rightarrow> Inr ([''Dict''] @ names @ names')))"
| "get_typing_imports (AnyOriginT elements) =
     (case get_typing_imports_sum elements of
        Inl e \<Rightarrow> Inl e
      | Inr names \<Rightarrow> Inr ([''Any''] @ names))"
| "get_typing_imports (GenericT nm md elements) =
     (case get_typing_imports_sum elements of
        Inl e \<Rightarrow> Inl e
      | Inr names \<Rightarrow> Inr ((if md \<noteq> ''builtins'' then [nm] else []) @ names))"
| "get_typing_imports NoArgsT = Inl AttributeError"
| "get_typing_imports AnyT = Inr [''Any'']"
| "get_typing_imports NoneT = Inr []"
| "get_typing_imports (SpecialT nm) = Inr []"
| "get_typing_imports (ClassT nm) = Inr []"
| "get_typing_imports BareT = Inr []"
| "get_typing_imports_sum [] = Inr []"
| "get_typing_imports_sum (arg # args) =
     (case get_typing_imports arg of
        Inl e \<Rightarrow> Inl e
      | Inr names \<Rightarrow>
          (case get_typing_imports_sum args of
             Inl e \<Rightarrow> Inl e
           | Inr names' \<Rightarrow> Inr (names @ names')))"

text \<open>
  \<^verbatim>\<open>type_to_code_str\<close>. The list comprehensions
  \<^verbatim>\<open>[type_to_code_str(arg) for arg in args if which == "Union" or arg is not type(None)]\<close>
  and \<^verbatim>\<open>[type_to_code_str(e) for e in elements]\<close> are \<open>type_to_code_strs\<close>, whose
  first argument tells whether \<^verbatim>\<open>type(None)\<close> is kept; the first argument that does
  not render ends them. The last branch reads \<^verbatim>\<open>__name__\<close>, which raises
  \<^verbatim>\<open>AttributeError\<close> on an object that has none.
\<close>

fun type_to_code_str :: "ty \<Rightarrow> error + string"
  and type_to_code_strs :: "bool \<Rightarrow> ty list \<Rightarrow> error + string list" where
  "type_to_code_str (UnionT args) =
     (let which = (if NoneT \<in> set args \<and> length args = 2 then ''Optional'' else ''Union'')
      in case type_to_code_strs (which = ''Union'') args of
           Inl e \<Rightarrow> Inl e
         | Inr strs \<Rightarrow> Inr (which @ ''['' @ join '', '' strs @ '']''))"
| "type_to_code_str (DictT k v) =
     (case type_to_code_str k of
        Inl e \<Rightarrow> Inl e
      | Inr kstr \<Rightarrow>
          (case type_to_code_str v of
             Inl e \<Rightarrow> Inl e
           | Inr vstr \<Rightarrow> Inr (''Dict['' @ kstr @ '', '' @ vstr @ '']'')))"
| "type_to_code_str (AnyOriginT elements) = Inr ''Any''"
| "type_to_code_str (GenericT nm md elements) =
     (case type_to_code_strs True elements of
        Inl e \<Rightarrow> Inl e
      | Inr strs \<Rightarrow> Inr (nm @ ''['' @ join '', '' strs @ '']''))"
| "type_to_code_str NoArgsT = Inl AttributeError"
| "type_to_code_str NoneT = Inr ''None''"
| "type_to_code_str AnyT = Inr ''Any''"
| "type_to_code_str (SpecialT nm) = Inr nm"
| "type_to_code_str (ClassT nm) = Inr nm"
| "type_to_code_str BareT = Inl AttributeError"
| "type_to_code_strs keep_none [] = Inr []"
| "type_to_code_strs keep_none (arg # args) =
     (if keep_none \<or> arg \<noteq> NoneT then
        (case type_to_code_str arg of
           Inl e \<Rightarrow> Inl e
         | Inr str \<Rightarrow>
             (case type_to_code_strs keep_none args of
                Inl e \<Rightarrow> Inl e
              | Inr strs \<Rightarrow> Inr (str # strs)))
      else type_to_code_strs keep_none args)"

section \<open>The section registry\<close>

text \<open>
  \<^verbatim>\<open>_name_to_config\<close>: a dictionary, kept as an association list in insertion order.
\<close>

type_synonym registry = "(string \<times> cls) list"

text \<open>
  \<^verbatim>\<open>config_class(name)(c)\<close>: the result of the decorator and the registry after the
  call. The error carries the arguments of
  \<^verbatim>\<open>ValueError("Redefining", name, "is not allowed; found", c, "and", _name_to_config[name])\<close>.
\<close>

definition config_class :: "string \<Rightarrow> cls \<Rightarrow> registry \<Rightarrow> (error + cls) \<times> registry" where
  "config_class name c reg =
     (case map_of reg name of
        Some prior \<Rightarrow> (Inl (ValueError name c prior), reg)
      | None \<Rightarrow> (Inr c, AList.update name c reg))"

section \<open>The schema tree and the stub\<close>

text \<open>\<^verbatim>\<open>ConfigAttr = namedtuple("ConfigAttr", ["type", "docstring"])\<close>\<close>

datatype config_attr = ConfigAttr (ca_type: string) (ca_docstring: string)

text \<open>
  \<^verbatim>\<open>self.config\<close>: a recursive \<^verbatim>\<open>defaultdict\<close>, whose values are further
  dictionaries (\<open>Namespace\<close>, the entries in insertion order) or \<^verbatim>\<open>ConfigAttr\<close>
  tuples (\<open>Attr\<close>).
\<close>

datatype schema = Attr config_attr | Namespace "(string \<times> schema) list"

text \<open>
  \<^verbatim>\<open>attr_dict = _recursive_dd_get(self.config, keys)\<close> followed by statements that
  assign into \<^verbatim>\<open>attr_dict\<close>: \<open>dd_modify body keys d\<close> walks \<open>keys\<close>, creating the
  missing dictionaries as a \<^verbatim>\<open>defaultdict\<close> does, runs \<open>body\<close> on what it reaches
  and leaves the result in its place (the code mutates it there). Indexing a
  \<^verbatim>\<open>ConfigAttr\<close> with a string key raises \<^verbatim>\<open>TypeError\<close>.
\<close>

fun dd_modify ::
  "(schema \<Rightarrow> error + schema \<times> 'a) \<Rightarrow> string list \<Rightarrow> schema \<Rightarrow> error + schema \<times> 'a" where
  "dd_modify body [] d = body d"
| "dd_modify body (k # ks) (Namespace al) =
     (case dd_modify body ks (case map_of al k of None \<Rightarrow> Namespace [] | Some sub \<Rightarrow> sub) of
        Inl e \<Rightarrow> Inl e
      | Inr (sub', r) \<Rightarrow> Inr (Namespace (AList.update k sub' al), r))"
| "dd_modify body (k # ks) (Attr a) = Inl TypeError"

text \<open>
  \<^verbatim>\<open>attr_dict[attr_name] = ConfigAttr(...)\<close>: a \<^verbatim>\<open>ConfigAttr\<close> does not support
  item assignment.
\<close>

fun setitem :: "schema \<Rightarrow> string \<Rightarrow> config_attr \<Rightarrow> error + schema" where
  "setitem (Namespace al) k a = Inr (Namespace (AList.update k (Attr a) al))"
| "setitem (Attr b) k a = Inl TypeError"

text \<open>
  The \<^verbatim>\<open>docstrings\<close> dictionary of one section: \<^verbatim>\<open>defaultdict(lambda: "")\<close>, filled
  from the parsed \<^verbatim>\<open>Attributes\<close> entries.
\<close>

definition docstrings_of :: "cls \<Rightarrow> string \<Rightarrow> string" where
  "docstrings_of cobj =
     (case cls_doc cobj of
        None \<Rightarrow> (\<lambda>n. [])
      | Some doc_attrs \<Rightarrow>
          fold (\<lambda>(n, desc) docstrings. docstrings(n := join ''\<newline>'' desc)) doc_attrs (\<lambda>n. []))"

definition import_line :: "string \<Rightarrow> string \<Rightarrow> string" where
  "import_line md nm = ''from '' @ md @ '' import '' @ nm"

text \<open>
  The first loop of a section (lines 155-161): one field per name of \<^verbatim>\<open>dir(cobj)\<close>
  that does not start with two underscores, typed by the runtime type of its value.
  The state is \<^verbatim>\<open>attr_dict\<close> and \<^verbatim>\<open>imports\<close>.
\<close>

definition infer_attr ::
  "(string \<Rightarrow> string) \<Rightarrow> string \<times> val \<Rightarrow> schema \<times> string list \<Rightarrow> error + schema \<times> string list" where
  "infer_attr docstrings = (\<lambda>(attr_name, v) (attr_dict, imports).
     if startswith attr_name ''__'' then Inr (attr_dict, imports)
     else
       let t = type_of v in
       (case setitem attr_dict attr_name (ConfigAttr (ty_name t) (docstrings attr_name)) of
          Inl e \<Rightarrow> Inl e
        | Inr attr_dict' \<Rightarrow>
            Inr (attr_dict',
                 if ty_module t \<noteq> ''builtins''
                 then imports @ [import_line (ty_module t) (ty_name t)] else imports)))"

text \<open>
  The second loop of a section (lines 163-177): the annotations. The state is
  \<^verbatim>\<open>attr_dict\<close>, \<^verbatim>\<open>imports\<close> and \<^verbatim>\<open>typing_imports\<close>.
\<close>

text \<open>
  What \<^verbatim>\<open>typing_imports += get_typing_imports(t)\<close> adds (line 170, reached for a
  \<^verbatim>\<open>typing\<close> construct only), then \<^verbatim>\<open>tname\<close> and \<^verbatim>\<open>iname\<close> (lines 165-174).
\<close>

fun ann_typing_imports :: "ann \<Rightarrow> error + string list" where
  "ann_typing_imports (AClass t) = Inr []"
| "ann_typing_imports (ATyping t) = get_typing_imports t"
| "ann_typing_imports (AOther tstr md) = Inr []"

fun ann_tname :: "ann \<Rightarrow> error + string" where
  "ann_tname (AClass t) = Inr (ty_name t)"
| "ann_tname (ATyping t) = type_to_code_str t"
| "ann_tname (AOther tstr md) = Inr tstr"

fun ann_iname :: "ann \<Rightarrow> string option" where
  "ann_iname (AClass t) = Some (ty_name t)"
| "ann_iname (ATyping t) = None"
| "ann_iname (AOther tstr md) = Some tstr"

text \<open>\<^verbatim>\<open>t.__module__\<close>, which an object that is not a class may lack.\<close>

fun ann_module :: "ann \<Rightarrow> error + string" where
  "ann_module (AClass t) = Inr (ty_module t)"
| "ann_module (ATyping t) = Inr ''typing''"
| "ann_module (AOther tstr md) = (case md of None \<Rightarrow> Inl AttributeError | Some m \<Rightarrow> Inr m)"

definition declare_attr ::
  "(string \<Rightarrow> string) \<Rightarrow> string \<times> ann \<Rightarrow> schema \<times> string list \<times> string list
     \<Rightarrow> error + schema \<times> string list \<times> string list" where
  "declare_attr docstrings = (\<lambda>(attr_name, t) (attr_dict, imports, typing_imports).
     case ann_typing_imports t of
       Inl e \<Rightarrow> Inl e
     | Inr names \<Rightarrow>
         (case ann_tname t of
            Inl e \<Rightarrow> Inl e
          | Inr tname \<Rightarrow>
              (case setitem attr_dict attr_name (ConfigAttr tname (docstrings attr_name)) of
                 Inl e \<Rightarrow> Inl e
               | Inr attr_dict' \<Rightarrow>
                   (case ann_module t of
                      Inl e \<Rightarrow> Inl e
                    | Inr md \<Rightarrow>
                        (case ann_iname t of
                           Some iname \<Rightarrow>
                             Inr (attr_dict',
                                  if md \<noteq> ''builtins'' then imports @ [import_line md iname]
                                  else imports,
                                  typing_imports @ names)
                         | None \<Rightarrow> Inr (attr_dict', imports, typing_imports @ names))))))"

text \<open>The body of the loop over \<^verbatim>\<open>_name_to_config.items()\<close> (lines 143-177).\<close>

definition section_attrs ::
  "cls \<Rightarrow> string list \<Rightarrow> string list \<Rightarrow> schema \<Rightarrow> error + schema \<times> string list \<times> string list" where
  "section_attrs cobj imports typing_imports attr_dict =
     (case for_loop (infer_attr (docstrings_of cobj)) (cls_attrs cobj) (attr_dict, imports) of
        Inl e \<Rightarrow> Inl e
      | Inr (attr_dict', imports') \<Rightarrow>
          for_loop (declare_attr (docstrings_of cobj))
            (case cls_annotations cobj of None \<Rightarrow> [] | Some anns \<Rightarrow> anns)
            (attr_dict', imports', typing_imports))"

definition section_path :: "string \<Rightarrow> string list" where
  "section_path cname = (if cname = ''@base'' then [] else split_on CHR ''.'' cname)"

definition add_section ::
  "string \<times> cls \<Rightarrow> schema \<times> string list \<times> string list
     \<Rightarrow> error + schema \<times> string list \<times> string list" where
  "add_section = (\<lambda>(cname, cobj) (config, imports, typing_imports).
     (case dd_modify (section_attrs cobj imports typing_imports) (section_path cname) config of
        Inl e \<Rightarrow> Inl e
      | Inr (config', imports', typing_imports') \<Rightarrow> Inr (config', imports', typing_imports')))"

text \<open>
  The sort key of \<^verbatim>\<open>f\<close>:
  \<^verbatim>\<open>lambda x: "_" + x[0] if not isinstance(x[1], dict) else x[0]\<close>.
\<close>

fun field_key :: "string \<times> schema \<Rightarrow> string" where
  "field_key (k, Attr a) = ''_'' @ k"
| "field_key (k, Namespace d) = k"

text \<open>
  The local function \<^verbatim>\<open>f\<close> of \<^verbatim>\<open>output_stub\<close>, on the items of a dictionary. The
  message it prints for an empty class goes to the console and is not part of the text.
\<close>

function output_stub_f :: "string \<Rightarrow> (string \<times> schema) list \<Rightarrow> nat \<Rightarrow> string" where
  "output_stub_f name d indentlevel =
     indent indentlevel @ ''class '' @ name @ '':\<newline>'' @
     concat (map (\<lambda>(k, v).
        case v of
          Namespace d' \<Rightarrow> output_stub_f k d' (indentlevel + 1)
        | Attr a \<Rightarrow>
            indent (indentlevel + 1) @ k @ '': '' @ ca_type a @ ''\<newline>'' @
            (if ca_docstring a \<noteq> [] then
               indent (indentlevel + 1) @ triple_quote @ ca_docstring a @ triple_quote @ ''\<newline>''
             else []))
       (sort_key field_key d)) @
     (if length d = 0 then indent (indentlevel + 1) @ ''...\<newline>'' else [])"
  by pat_completeness auto
termination
proof (relation "measure (\<lambda>(name, d, indentlevel). size (Namespace d))")
  show "wf (measure (\<lambda>(name, d, indentlevel). size (Namespace d)))"
    by simp
next
  fix name :: string and d :: "(string \<times> schema) list" and indentlevel :: nat
    and x :: "string \<times> schema" and k v d'
  assume "x \<in> set (sort_key field_key d)" and "(k, v) = x" and "v = Namespace d'"
  then have "(k, Namespace d') \<in> set d"
    by simp
  then have "size (Namespace d') < size (Namespace d)"
    by (induction d) auto
  then show "((k, d', indentlevel + 1), (name, d, indentlevel))
      \<in> measure (\<lambda>(name, d, indentlevel). size (Namespace d))"
    by simp
qed

declare output_stub_f.simps [simp del]

definition DISCLAIMER :: "string \<Rightarrow> string" where
  "DISCLAIMER base_path =
     ''# This file was generated automatically\<newline>'' @
     ''# Do not edit by hand, your changes will be lost\<newline>'' @
     ''# Regenerate by running `python -m foliconf '' @ base_path @ ''`\<newline>''"

definition STUB_BASE :: string where
  "STUB_BASE =
     ''def config_class(name): ...\<newline>'' @
     ''def config_from_dict(config_dict: dict[str, Any]) -> Config: ...\<newline>'' @
     ''def make_config() -> Config: ...\<newline>'' @
     ''def update_config(config: Config, config_dict: dict[str, Any]) -> Config: ...\<newline>'' @
     ''def config_to_dict(config: Config) -> dict[str, Any]: ...\<newline>''"

text \<open>\<^verbatim>\<open>sorted(set(xs))\<close>\<close>

definition sorted_set :: "string list \<Rightarrow> string list" where
  "sorted_set xs = sort (remdups xs)"

text \<open>The text of the stub, from the schema tree and the two import lists.\<close>

definition stub_text :: "string \<Rightarrow> schema \<times> string list \<times> string list \<Rightarrow> error + string" where
  "stub_text base_path = (\<lambda>(config, imports, typing_imports).
     (case config of
        Namespace d \<Rightarrow>
          Inr (DISCLAIMER base_path @
               ''from typing import '' @ join '', '' (sorted_set typing_imports) @ ''\<newline>'' @
               join ''\<newline>'' (sorted_set imports) @ ''\<newline>\<newline>'' @
               output_stub_f ''Config'' d 0 @
               STUB_BASE)
      | Attr a \<Rightarrow> Inl AttributeError))"

text \<open>
  The loop over \<^verbatim>\<open>_name_to_config.items()\<close> of \<^verbatim>\<open>output_stub\<close>: the schema tree
  and the two import lists it leaves. \<^verbatim>\<open>self.config\<close> starts as an empty dictionary.
\<close>

definition build_schema :: "registry \<Rightarrow> error + schema \<times> string list \<times> string list" where
  "build_schema reg = for_loop add_section reg (Namespace [], [], [])"

text \<open>
  \<^verbatim>\<open>StubMaker.output_stub\<close>: the text written to \<^verbatim>\<open>config.pyi\<close>. (The runtime
  module written next is a fixed template.)
\<close>

definition output_stub :: "string \<Rightarrow> registry \<Rightarrow> error + string" where
  "output_stub base_path reg =
     (case build_schema reg of
        Inl e \<Rightarrow> Inl e
      | Inr st \<Rightarrow> stub_text base_path st)"

section \<open>The discovery visitor\<close>

text \<open>
  The syntax tree, as far as the visitor reads it. A decorator is an expression; the
  value of an \<^verbatim>\<open>ast.Constant\<close> may be of any literal type. A statement is a class
  definition (its name, its \<^verbatim>\<open>decorator_list\<close> and its body) or any other statement,
  with the statements nested in it. Expressions hold no statements.
\<close>

datatype literal = CStr string | CInt int | CBool bool | CNone

datatype expr =
    Constant literal
  | Name string
  | Attribute expr string
  | Call expr "expr list" "(string \<times> expr) list"
  | Starred expr
  | OtherExpr

datatype stmt = ClassDef string "expr list" "stmt list" | OtherStmt "stmt list"

text \<open>The condition of \<^verbatim>\<open>visit_ClassDef\<close> on one decorator (lines 207-213).\<close>

fun is_config_class_call :: "expr \<Rightarrow> bool" where
  "is_config_class_call (Call func args keywords) =
     ((case func of Name fid \<Rightarrow> fid = ''config_class'' | _ \<Rightarrow> False) \<and>
      length args = 1 \<and>
      (case args ! 0 of Constant c \<Rightarrow> True | _ \<Rightarrow> False))"
| "is_config_class_call dec = False"

text \<open>
  \<^verbatim>\<open>visit\<close> on a statement, threading \<^verbatim>\<open>self._should_import\<close>:
  \<^verbatim>\<open>visit_ClassDef\<close> for a class, \<^verbatim>\<open>generic_visit\<close> for the rest.
\<close>

fun visit :: "stmt \<Rightarrow> bool \<Rightarrow> bool" where
  "visit (ClassDef name decorator_list body) should_import =
     fold visit body
       (fold (\<lambda>dec flag. if is_config_class_call dec then True else flag)
          decorator_list should_import)"
| "visit (OtherStmt body) should_import = fold visit body should_import"

text \<open>\<^verbatim>\<open>start_module\<close>, then \<^verbatim>\<open>visit\<close> on the module: the flag \<^verbatim>\<open>finalize_module\<close> reads.\<close>

definition should_import_module :: "stmt list \<Rightarrow> bool" where
  "should_import_module body = fold visit body False"

section \<open>The runtime helpers\<close>

text \<open>
  Attribute access on an instance. A property of the class comes first: reading
  calls its getter, and writing raises \<^verbatim>\<open>AttributeError\<close>, there being no setter.
  Otherwise a read finds the instance's own attribute, then the attribute of the
  class, and a write goes to the instance's own attributes. An atom has no
  attributes here.
\<close>

definition class_property :: "(string \<times> val) list \<Rightarrow> string \<Rightarrow> atom option" where
  "class_property cattrs k =
     (case map_of cattrs k of Some (Atom (Property r)) \<Rightarrow> Some r | _ \<Rightarrow> None)"

fun getattr :: "val \<Rightarrow> string \<Rightarrow> error + val" where
  "getattr (Obj t cattrs dict) k =
     (case class_property cattrs k of
        Some r \<Rightarrow> Inr (Atom r)
      | None \<Rightarrow>
          (case map_of dict k of
             Some v \<Rightarrow> Inr v
           | None \<Rightarrow>
               (case map_of cattrs k of Some v \<Rightarrow> Inr v | None \<Rightarrow> Inl AttributeError)))"
| "getattr (Atom a) k = Inl AttributeError"

text \<open>\<^verbatim>\<open>hasattr(o, k)\<close>: whether \<^verbatim>\<open>getattr(o, k)\<close> raises \<^verbatim>\<open>AttributeError\<close>.\<close>

definition hasattr :: "val \<Rightarrow> string \<Rightarrow> bool" where
  "hasattr obj k = (case getattr obj k of Inl e \<Rightarrow> False | Inr v \<Rightarrow> True)"

fun setattr :: "val \<Rightarrow> string \<Rightarrow> val \<Rightarrow> error + val" where
  "setattr (Obj t cattrs dict) k v =
     (case class_property cattrs k of
        Some r \<Rightarrow> Inl AttributeError
      | None \<Rightarrow> Inr (Obj t cattrs (AList.update k v dict)))"
| "setattr (Atom a) k v = Inl AttributeError"

text \<open>\<^verbatim>\<open>dir(o)\<close>: the names of the class and of the instance, sorted, each once.\<close>

fun dir :: "val \<Rightarrow> string list" where
  "dir (Obj t cattrs dict) = sort (remdups (map fst cattrs @ map fst dict))"
| "dir (Atom a) = []"

text \<open>
  \<^verbatim>\<open>cobj()\<close>: a fresh instance, with no attributes of its own, on which \<^verbatim>\<open>__init__\<close>
  runs.
\<close>

definition instantiate :: "cls \<Rightarrow> error + val" where
  "instantiate cobj =
     (case cls_init cobj of
        None \<Rightarrow> Inl TypeError
      | Some assigns \<Rightarrow>
          for_loop (\<lambda>(name, v) self. setattr self name v) assigns
            (Obj (cls_type cobj) (cls_attrs cobj) []))"

text \<open>\<^verbatim>\<open>isinstance(o, classes)\<close>, by the type of the value (subclassing is not modelled).\<close>

definition isinstance :: "val \<Rightarrow> cls list \<Rightarrow> bool" where
  "isinstance v classes = (type_of v \<in> set (map cls_type classes))"

text \<open>
  The code mutates objects in place. Here the updated object is returned, and an
  updated child is left where \<^verbatim>\<open>getattr\<close> found it: among the instance's own
  attributes, or else among those of its class.
\<close>

fun put_attr :: "val \<Rightarrow> string \<Rightarrow> val \<Rightarrow> val" where
  "put_attr (Obj t cattrs dict) k v =
     (if map_of dict k \<noteq> None then Obj t cattrs (AList.update k v dict)
      else Obj t (AList.update k v cattrs) dict)"
| "put_attr (Atom a) k v = Atom a"

text \<open>
  \<^verbatim>\<open>_recursive_creative_setattr(o, keys, default, value)\<close>. With no keys,
  \<^verbatim>\<open>keys[0]\<close> raises \<^verbatim>\<open>IndexError\<close>.
\<close>

fun recursive_creative_setattr :: "val \<Rightarrow> string list \<Rightarrow> cls \<Rightarrow> val \<Rightarrow> error + val" where
  "recursive_creative_setattr obj [] dflt v = Inl IndexError"
| "recursive_creative_setattr obj [k] dflt v = setattr obj k v"
| "recursive_creative_setattr obj (k # k' # ks) dflt v =
     (case (if \<not> hasattr obj k then
              (case instantiate dflt of Inl e \<Rightarrow> Inl e | Inr fresh \<Rightarrow> setattr obj k fresh)
            else Inr obj) of
        Inl e \<Rightarrow> Inl e
      | Inr obj' \<Rightarrow>
          (case getattr obj' k of
             Inl e \<Rightarrow> Inl e
           | Inr child \<Rightarrow>
               (case recursive_creative_setattr child (k' # ks) dflt v of
                  Inl e \<Rightarrow> Inl e
                | Inr child' \<Rightarrow> Inr (put_attr obj' k child'))))"

text \<open>\<^verbatim>\<open>_recursive_getattr(o, keys)\<close>\<close>

fun recursive_getattr :: "val \<Rightarrow> string list \<Rightarrow> error + val" where
  "recursive_getattr obj [] = Inl IndexError"
| "recursive_getattr obj [k] = getattr obj k"
| "recursive_getattr obj (k # k' # ks) =
     (case getattr obj k of Inl e \<Rightarrow> Inl e | Inr child \<Rightarrow> recursive_getattr child (k' # ks))"

text \<open>
  The helpers read two globals: \<^verbatim>\<open>_Config_cls\<close>, taken here after \<^verbatim>\<open>set_Config\<close> has
  installed the generic base class, and \<^verbatim>\<open>_name_to_config\<close>. In \<^verbatim>\<open>make_config\<close> the
  arguments of the call on line 233 are evaluated first, so \<^verbatim>\<open>cobj()\<close> runs before
  the walk.
\<close>

definition make_config :: "cls \<Rightarrow> registry \<Rightarrow> error + val" where
  "make_config Config_cls reg =
     (case instantiate (case map_of reg ''@base'' of None \<Rightarrow> Config_cls | Some cobj \<Rightarrow> cobj) of
        Inl e \<Rightarrow> Inl e
      | Inr config \<Rightarrow>
          for_loop
            (\<lambda>(cname, cobj) config.
               if cname = ''@base'' then Inr config
               else
                 (case instantiate cobj of
                    Inl e \<Rightarrow> Inl e
                  | Inr inst \<Rightarrow>
                      recursive_creative_setattr config (split_on CHR ''.'' cname)
                        Config_cls inst))
            (sort_key fst reg) config)"

text \<open>\<^verbatim>\<open>update_config\<close>: the instance after the updates.\<close>

definition update_config :: "cls \<Rightarrow> val \<Rightarrow> (string \<times> val) list \<Rightarrow> error + val" where
  "update_config Config_cls config config_dict =
     for_loop
       (\<lambda>(cname, v) config'.
          recursive_creative_setattr config' (split_on CHR ''.'' cname) Config_cls v)
       config_dict config"

text \<open>\<^verbatim>\<open>check_config\<close>: the warnings it prints, as pairs of section and attribute.\<close>

definition check_config :: "registry \<Rightarrow> val \<Rightarrow> error + (string \<times> string) list" where
  "check_config reg config =
     for_loop
       (\<lambda>(cname, cobj) warnings.
          if cname = ''@base'' then Inr warnings
          else
            (case recursive_getattr config (split_on CHR ''.'' cname) of
               Inl e \<Rightarrow> Inl e
             | Inr subcfg \<Rightarrow>
                 Inr (warnings @
                      map (\<lambda>(name, t). (cname, name))
                        (filter (\<lambda>(name, t). \<not> hasattr subcfg name)
                           (case cls_annotations cobj of None \<Rightarrow> [] | Some anns \<Rightarrow> anns)))))
       reg []"

definition config_from_dict :: "cls \<Rightarrow> registry \<Rightarrow> (string \<times> val) list \<Rightarrow> error + val" where
  "config_from_dict Config_cls reg config_dict =
     (case make_config Config_cls reg of
        Inl e \<Rightarrow> Inl e
      | Inr config \<Rightarrow>
          (case update_config Config_cls config config_dict of
             Inl e \<Rightarrow> Inl e
           | Inr config' \<Rightarrow>
               (case check_config reg config' of
                  Inl e \<Rightarrow> Inl e
                | Inr warnings \<Rightarrow> Inr config')))"

text \<open>The inner loop of \<^verbatim>\<open>config_to_dict\<close> (lines 269-275), on one name of \<^verbatim>\<open>dir(subcfg)\<close>.\<close>

definition to_dict_attr ::
  "cls list \<Rightarrow> string list \<Rightarrow> val \<Rightarrow> string \<Rightarrow> (string \<times> val) list \<Rightarrow> error + (string \<times> val) list" where
  "to_dict_attr config_classes csplit subcfg i d =
     (if startswith i ''__'' then Inr d
      else
        (case getattr subcfg i of
           Inl e \<Rightarrow> Inl e
         | Inr v \<Rightarrow>
             if isinstance v config_classes then Inr d
             else Inr (AList.update (join ''.'' (csplit @ [i])) v d)))"

text \<open>The body of the outer loop of \<^verbatim>\<open>config_to_dict\<close> (lines 262-275), on one section.\<close>

definition to_dict_section ::
  "cls list \<Rightarrow> val \<Rightarrow> string \<times> cls \<Rightarrow> (string \<times> val) list \<Rightarrow> error + (string \<times> val) list" where
  "to_dict_section config_classes config = (\<lambda>(cname, cobj) d.
     if cname = ''@base'' then
       for_loop (to_dict_attr config_classes [] config) (dir config) d
     else
       (case recursive_getattr config (split_on CHR ''.'' cname) of
          Inl e \<Rightarrow> Inl e
        | Inr subcfg \<Rightarrow>
            for_loop (to_dict_attr config_classes (split_on CHR ''.'' cname) subcfg)
              (dir subcfg) d))"

definition config_to_dict :: "cls \<Rightarrow> registry \<Rightarrow> val \<Rightarrow> error + (string \<times> val) list" where
  "config_to_dict Config_cls reg config =
     (let config_classes = map snd reg @ [Config_cls] in
      for_loop (to_dict_section config_classes config) reg [])"

section \<open>Example inputs\<close>

text \<open>
  A class without docstring, annotations or \<^verbatim>\<open>__init__\<close> of its own, in module
  \<^verbatim>\<open>app\<close>.
\<close>

definition example_class :: "string \<Rightarrow> (string \<times> val) list \<Rightarrow> cls" where
  "example_class nm attrs =
     \<lparr>cls_type = \<lparr>ty_name = nm, ty_module = ''app''\<rparr>, cls_doc = None,
      cls_attrs = attrs, cls_annotations = None, cls_init = Some []\<rparr>"

text \<open>The generic base class of the generated runtime module: \<^verbatim>\<open>class Config: pass\<close>.\<close>

definition Config :: cls where
  "Config = \<lparr>cls_type = \<lparr>ty_name = ''Config'', ty_module = ''config''\<rparr>, cls_doc = None,
     cls_attrs = [], cls_annotations = None, cls_init = Some []\<rparr>"

text \<open>
  A section class with a documented attribute, a private one, one whose type is not a
  built-in, and two annotations, one of them for an attribute that has a default.
\<close>

definition example_section :: cls where
  "example_section =
     \<lparr>cls_type = \<lparr>ty_name = ''Http'', ty_module = ''app.net''\<rparr>,
      cls_doc = Some [(''port'', [''The port to listen on.''])],
      cls_attrs = [(''__doc__'', Atom (StrV ''Attributes...'')),
                   (''_hidden'', Atom (IntV 1)),
                   (''path'', Atom (Opaque \<lparr>ty_name = ''PosixPath'', ty_module = ''pathlib''\<rparr> 0)),
                   (''port'', Atom (IntV 8080))],
      cls_annotations = Some [(''timeout'', ATyping (UnionT [ClassT ''float'', NoneT])),
                              (''port'', AClass \<lparr>ty_name = ''str'', ty_module = ''builtins''\<rparr>)],
      cls_init = Some []\<rparr>"

text \<open>A root class with a single attribute, \<^verbatim>\<open>debug = False\<close>.\<close>

definition example_root :: cls where
  "example_root = example_class ''Root'' [(''debug'', Atom (BoolV False))]"

text \<open>
  A root class with the attribute \<^verbatim>\<open>a\<close> and a section class to register as
  \<^verbatim>\<open>_a\<close>: in the root block the field and the namespace get the same sort key.
\<close>

definition tie_root :: cls where
  "tie_root = example_class ''Root'' [(''a'', Atom (IntV 1))]"

definition tie_section :: cls where
  "tie_section = example_class ''Private'' [(''x'', Atom (IntV 2))]"

text \<open>
  A class whose body defines \<^verbatim>\<open>__token = "s3cret"\<close> and \<^verbatim>\<open>limit = 10\<close>: \<^verbatim>\<open>dir\<close>
  lists the first under its mangled name.
\<close>

definition secret_class :: cls where
  "secret_class = example_class ''Secret''
     [(''_Secret__token'', Atom (StrV ''s3cret'')), (''limit'', Atom (IntV 10))]"

text \<open>
  Two sections of which the second is registered below a field of the first: the
  attribute \<^verbatim>\<open>b\<close> of section \<^verbatim>\<open>a\<close> and the section \<^verbatim>\<open>a.b\<close>.
\<close>

definition outer_section :: cls where
  "outer_section = example_class ''Outer'' [(''b'', Atom (IntV 1))]"

definition inner_section :: cls where
  "inner_section = example_class ''Inner'' [(''x'', Atom (IntV 2))]"


section \<open>Observers used to state the properties\<close>

text \<open>The decorators of every class definition in a statement, at any depth.\<close>

fun class_decorators :: "stmt \<Rightarrow> expr list" where
  "class_decorators (ClassDef name decorator_list body) =
     decorator_list @ concat (map class_decorators body)"
| "class_decorators (OtherStmt body) = concat (map class_decorators body)"

text \<open>
  The marker in the words of the specification: a call of \<^verbatim>\<open>config_class\<close> with a
  single argument, which is a string literal.
\<close>

fun spec_is_section_marker :: "expr \<Rightarrow> bool" where
  "spec_is_section_marker (Call (Name fid) [Constant (CStr s)] []) = (fid = ''config_class'')"
| "spec_is_section_marker dec = False"

definition spec_should_import :: "stmt list \<Rightarrow> bool" where
  "spec_should_import body = list_ex spec_is_section_marker (concat (map class_decorators body))"

text \<open>What the schema tree holds at a path of keys.\<close>

fun schema_get :: "schema \<Rightarrow> string list \<Rightarrow> schema option" where
  "schema_get d [] = Some d"
| "schema_get (Namespace al) (k # ks) =
     (case map_of al k of None \<Rightarrow> None | Some sub \<Rightarrow> schema_get sub ks)"
| "schema_get (Attr a) (k # ks) = None"

text \<open>
  The entry and the import line that the first loop of a section derives from one
  attribute of the class.
\<close>

definition inferred_field :: "cls \<Rightarrow> string \<times> val \<Rightarrow> string \<times> schema" where
  "inferred_field cobj = (\<lambda>(n, v). (n, Attr (ConfigAttr (ty_name (type_of v)) (docstrings_of cobj n))))"

definition inferred_import :: "string \<times> val \<Rightarrow> string" where
  "inferred_import = (\<lambda>(n, v). import_line (ty_module (type_of v)) (ty_name (type_of v)))"

text \<open>
  The inferred fields in the words of the specification: one for every public
  attribute, a name being public when it is neither dunder-style nor the mangled form
  \<^verbatim>\<open>_Class__name\<close> of a private name of the class.
\<close>

definition spec_is_public :: "cls \<Rightarrow> string \<Rightarrow> bool" where
  "spec_is_public cobj n =
     (\<not> startswith n ''__'' \<and> \<not> startswith n (''_'' @ ty_name (cls_type cobj) @ ''__''))"

definition spec_inferred_fields :: "cls \<Rightarrow> (string \<times> schema) list" where
  "spec_inferred_fields cobj =
     map (inferred_field cobj) (filter (\<lambda>(n, v). spec_is_public cobj n) (cls_attrs cobj))"

text \<open>
  No attribute name anywhere in a value contains a dot, as holds of names that come
  from class bodies and from the segments of dotted paths.
\<close>

fun dotfree :: "val \<Rightarrow> bool" where
  "dotfree (Atom a) = True"
| "dotfree (Obj t cattrs dict) =
     (list_all (\<lambda>(n, v). CHR ''.'' \<notin> set n \<and> dotfree v) cattrs \<and>
      list_all (\<lambda>(n, v). CHR ''.'' \<notin> set n \<and> dotfree v) dict)"






text \<open>The object that \<^verbatim>\<open>config_to_dict\<close> reads for a section: the root for \<^verbatim>\<open>@base\<close>.\<close>

definition section_object :: "val \<Rightarrow> string \<Rightarrow> val \<Rightarrow> bool" where
  "section_object config cname subcfg =
     (if cname = ''@base'' then subcfg = config
      else recursive_getattr config (split_on CHR ''.'' cname) = Inr subcfg)"

text \<open>
  The entries and the import lines that one section contributes, as the two loops of
  \<^verbatim>\<open>output_stub\<close> produce them when they do not raise: the inferred fields, then
  the declared ones. \<open>rendered\<close> reads the result of a call that did not raise.
\<close>

definition rendered :: "error + 'a list \<Rightarrow> 'a list" where
  "rendered r = (case r of Inl e \<Rightarrow> [] | Inr x \<Rightarrow> x)"

definition declared_field :: "cls \<Rightarrow> string \<times> ann \<Rightarrow> string \<times> schema" where
  "declared_field cobj =
     (\<lambda>(n, t). (n, Attr (ConfigAttr (rendered (ann_tname t)) (docstrings_of cobj n))))"

definition annotations_of :: "cls \<Rightarrow> (string \<times> ann) list" where
  "annotations_of cobj = (case cls_annotations cobj of None \<Rightarrow> [] | Some anns \<Rightarrow> anns)"

definition section_fields :: "cls \<Rightarrow> (string \<times> schema) list" where
  "section_fields cobj =
     map (inferred_field cobj) (filter (\<lambda>(n, v). \<not> startswith n ''__'') (cls_attrs cobj)) @
     map (declared_field cobj) (annotations_of cobj)"

definition declared_import :: "string \<times> ann \<Rightarrow> string list" where
  "declared_import = (\<lambda>(n, t).
     case ann_module t of
       Inl e \<Rightarrow> []
     | Inr md \<Rightarrow>
         (case ann_iname t of
            None \<Rightarrow> []
          | Some iname \<Rightarrow> if md \<noteq> ''builtins'' then [import_line md iname] else []))"

definition section_imports :: "cls \<Rightarrow> string list" where
  "section_imports cobj =
     map inferred_import
       (filter (\<lambda>(n, v). \<not> startswith n ''__'' \<and> ty_module (type_of v) \<noteq> ''builtins'')
          (cls_attrs cobj)) @
     concat (map declared_import (annotations_of cobj))"

definition section_typing_imports :: "cls \<Rightarrow> string list" where
  "section_typing_imports cobj =
     concat (map (\<lambda>(n, t). rendered (ann_typing_imports t)) (annotations_of cobj))"

text \<open>\<^verbatim>\<open>attr_dict[n] = v\<close> on the entries of a dictionary.\<close>

definition put :: "string \<times> schema \<Rightarrow> (string \<times> schema) list \<Rightarrow> (string \<times> schema) list" where
  "put = (\<lambda>(n, v). AList.update n v)"

text \<open>
  The shape of a schema tree: what stands at each path, a field with its type and
  documentation or a namespace, whatever the order of the entries.
\<close>

datatype kind = KLeaf config_attr | KNode

fun kind_of :: "schema \<Rightarrow> kind" where
  "kind_of (Attr a) = KLeaf a"
| "kind_of (Namespace d) = KNode"

definition shape :: "schema \<Rightarrow> string list \<Rightarrow> kind option" where
  "shape t path = map_option kind_of (schema_get t path)"

text \<open>
  What a section at path \<open>sp\<close> with entries \<open>fs\<close> does to the shape at a path: the
  prefixes of \<open>sp\<close> are namespaces, the names of \<open>fs\<close> below \<open>sp\<close> are fields (and
  nothing stands below a field), every other path is left alone.
\<close>

definition section_effect ::
  "string list \<Rightarrow> (string \<times> schema) list \<Rightarrow> string list \<Rightarrow> kind option option" where
  "section_effect sp fs path =
     (if prefix path sp then Some (Some KNode)
      else if prefix sp path then
        (case drop (length sp) path of
           [] \<Rightarrow> None
         | k # rest \<Rightarrow>
             (case map_of (rev fs) k of
                None \<Rightarrow> None
              | Some v \<Rightarrow> if rest = [] then Some (Some (kind_of v)) else Some None))
      else None)"

definition override :: "('a \<Rightarrow> 'b option) \<Rightarrow> ('a \<Rightarrow> 'b) \<Rightarrow> 'a \<Rightarrow> 'b" where
  "override e f x = (case e x of None \<Rightarrow> f x | Some r \<Rightarrow> r)"

definition effect_of :: "string \<times> cls \<Rightarrow> string list \<Rightarrow> kind option option" where
  "effect_of s = section_effect (section_path (fst s)) (section_fields (snd s))"

text \<open>
  A section collides with another when the path of the other runs through one of its
  fields: a position would be a field and a namespace.
\<close>

definition collides :: "string \<times> cls \<Rightarrow> string \<times> cls \<Rightarrow> bool" where
  "collides s s' =
     list_ex (\<lambda>x. prefix (section_path (fst s) @ [x]) (section_path (fst s')))
       (map fst (section_fields (snd s)))"

definition collision_free :: "registry \<Rightarrow> bool" where
  "collision_free reg = list_all (\<lambda>s. list_all (\<lambda>s'. \<not> collides s s') reg) reg"

text \<open>The shape that a set of sections determines.\<close>

definition explains :: "(string \<times> cls) set \<Rightarrow> (string list \<Rightarrow> kind option) \<Rightarrow> bool" where
  "explains S sh =
     (\<forall>path. (\<forall>s \<in> S. \<forall>r. effect_of s path = Some r \<longrightarrow> sh path = r) \<and>
             ((\<forall>s \<in> S. effect_of s path = None) \<longrightarrow> sh path = shape (Namespace []) path))"

text \<open>The keys of every dictionary of the tree are distinct.\<close>

fun wf_schema :: "schema \<Rightarrow> bool" where
  "wf_schema (Attr a) = True"
| "wf_schema (Namespace d) = (distinct (map fst d) \<and> list_all (\<lambda>(k, v). wf_schema v) d)"

text \<open>No two entries of a block have the same sort key.\<close>

fun no_ties :: "schema \<Rightarrow> bool" where
  "no_ties (Attr a) = True"
| "no_ties (Namespace d) = (distinct (map field_key d) \<and> list_all (\<lambda>(k, v). no_ties v) d)"

text \<open>The text of one entry of a block, as the loop body of \<^verbatim>\<open>f\<close> emits it.\<close>

definition render_entry :: "nat \<Rightarrow> string \<times> schema \<Rightarrow> string" where
  "render_entry lvl = (\<lambda>(k, v).
        case v of
          Namespace d' \<Rightarrow> output_stub_f k d' lvl
        | Attr a \<Rightarrow>
            indent lvl @ k @ '': '' @ ca_type a @ ''\<newline>'' @
            (if ca_docstring a \<noteq> [] then
               indent lvl @ triple_quote @ ca_docstring a @ triple_quote @ ''\<newline>''
             else []))"

text \<open>Two entries with the same name and the same shape.\<close>

definition same_entry :: "string \<times> schema \<Rightarrow> string \<times> schema \<Rightarrow> bool" where
  "same_entry x x' = (fst x = fst x' \<and> shape (snd x) = shape (snd x'))"

section \<open>Properties of the type renderer and of the registry\<close>

lemma update_absent: "map_of al k = None \<Longrightarrow> AList.update k v al = al @ [(k, v)]"
  by (induction al) (auto split: if_splits)






text \<open>
  Claim C3. For every registry and every name: when the name is already registered,
  \<^verbatim>\<open>config_class(name)(c)\<close> raises the error that carries the name, the new definition
  and the prior owner, and the registry is unchanged; when the name is not registered,
  the call returns the class without error and the registry gains the entry
  \<open>name \<mapsto> c\<close>, after the entries it had.
\<close>

theorem config_class_register:
  "(map_of reg name = Some prior \<longrightarrow>
      config_class name c reg = (Inl (ValueError name c prior), reg)) \<and>
   (map_of reg name = None \<longrightarrow>
      config_class name c reg = (Inr c, reg @ [(name, c)]) \<and>
      map_of (snd (config_class name c reg)) = (map_of reg)(name \<mapsto> c))"
proof (intro conjI impI)
  assume "map_of reg name = Some prior"
  then show "config_class name c reg = (Inl (ValueError name c prior), reg)"
    by (simp add: config_class_def)
next
  assume absent: "map_of reg name = None"
  then show "config_class name c reg = (Inr c, reg @ [(name, c)])"
    by (simp add: config_class_def update_absent)
  from absent have "snd (config_class name c reg) = AList.update name c reg"
    by (simp add: config_class_def)
  then show "map_of (snd (config_class name c reg)) = (map_of reg)(name \<mapsto> c)"
    by (simp only: update_conv')
qed

theorem config_class_register_witness:
  "config_class ''db'' (example_class ''B'' []) [(''db'', example_class ''A'' [])] =
     (Inl (ValueError ''db'' (example_class ''B'' []) (example_class ''A'' [])),
      [(''db'', example_class ''A'' [])]) \<and>
   config_class ''net'' (example_class ''B'' []) [(''db'', example_class ''A'' [])] =
     (Inr (example_class ''B'' []),
      [(''db'', example_class ''A'' []), (''net'', example_class ''B'' [])])"
  using config_class_register [of "[(''db'', example_class ''A'' [])]" "''db''"
      "example_class ''A'' []" "example_class ''B'' []"]
    config_class_register [of "[(''db'', example_class ''A'' [])]" "''net''"
      "example_class ''A'' []" "example_class ''B'' []"]
  by simp

section \<open>Properties of the discovery visitor\<close>

lemma is_config_class_call_iff:
  "is_config_class_call dec \<longleftrightarrow> (\<exists>c keywords. dec = Call (Name ''config_class'') [Constant c] keywords)"
proof (cases dec)
  case (Call func args kws)
  show ?thesis
  proof (cases args)
    case Nil
    with Call show ?thesis by simp
  next
    case (Cons a rest)
    with Call show ?thesis
      by (cases func; cases a; cases rest) auto
  qed
qed simp_all

lemma fold_decorators:
  "fold (\<lambda>dec flag. if P dec then True else flag) decs flag = (flag \<or> list_ex P decs)"
  by (induction decs arbitrary: flag) auto

lemma fold_visit:
  assumes "\<And>s flag. s \<in> set body \<Longrightarrow> visit s flag = (flag \<or> list_ex P (class_decorators s))"
  shows "fold visit body flag = (flag \<or> list_ex P (concat (map class_decorators body)))"
  using assms by (induction body arbitrary: flag) auto

lemma visit_eq:
  "visit s flag = (flag \<or> list_ex is_config_class_call (class_decorators s))"
proof (induction s arbitrary: flag)
  case (ClassDef name decorator_list body)
  then show ?case
    by (simp add: fold_visit fold_decorators)
next
  case (OtherStmt body)
  then show ?case
    by (simp add: fold_visit)
qed

text \<open>
  Claim C8, as amended. A module is marked for loading exactly when some class
  definition in it, at any depth, has a decorator that is a call of the plain name
  \<^verbatim>\<open>config_class\<close> with exactly one positional argument, and that argument is a
  literal constant of any type (keyword arguments are not looked at). A marker with a
  non-literal argument, with another number of positional arguments or reached
  through an attribute is no match. The visitor is a total function: it raises nothing.
\<close>

theorem should_import_iff:
  "should_import_module body \<longleftrightarrow>
     (\<exists>dec \<in> set (concat (map class_decorators body)).
        \<exists>c keywords. dec = Call (Name ''config_class'') [Constant c] keywords)"
proof -
  have "should_import_module body = list_ex is_config_class_call (concat (map class_decorators body))"
    unfolding should_import_module_def by (simp add: fold_visit visit_eq)
  also have "\<dots> \<longleftrightarrow> (\<exists>dec \<in> set (concat (map class_decorators body)). is_config_class_call dec)"
    by (simp only: list_ex_iff)
  finally show ?thesis
    by (simp only: is_config_class_call_iff)
qed

theorem should_import_iff_witness:
  "should_import_module
     [OtherStmt [ClassDef ''A'' [Name ''dataclass'', Call (Name ''config_class'') [Constant (CStr ''net.http'')] []] []]] \<and>
   \<not> should_import_module
     [ClassDef ''B'' [Call (Name ''config_class'') [Name ''section''] [],
                      Call (Name ''config_class'') [Constant (CStr ''a''), Constant (CStr ''b'')] [],
                      Call (Attribute (Name ''foliconf'') ''config_class'') [Constant (CStr ''a'')] []] []]"
  using should_import_iff [of "[OtherStmt [ClassDef ''A'' [Name ''dataclass'', Call (Name ''config_class'') [Constant (CStr ''net.http'')] []] []]]"]
    should_import_iff [of "[ClassDef ''B'' [Call (Name ''config_class'') [Name ''section''] [],
                      Call (Name ''config_class'') [Constant (CStr ''a''), Constant (CStr ''b'')] [],
                      Call (Attribute (Name ''foliconf'') ''config_class'') [Constant (CStr ''a'')] []] []]"]
  by simp

text \<open>
  Claim C8 as stated fails: a marker whose single argument is the literal \<^verbatim>\<open>42\<close>,
  not a string, marks the module.
\<close>

theorem should_import_nonstring_counterexample:
  "should_import_module [ClassDef ''A'' [Call (Name ''config_class'') [Constant (CInt 42)] []] []] \<noteq>
   spec_should_import [ClassDef ''A'' [Call (Name ''config_class'') [Constant (CInt 42)] []] []]"
  by (simp add: should_import_module_def spec_should_import_def)

section \<open>Properties of the runtime helpers\<close>


lemma for_loop_append:
  "for_loop body (xs @ ys) s =
     (case for_loop body xs s of Inl e \<Rightarrow> Inl e | Inr s' \<Rightarrow> for_loop body ys s')"
  by (induction xs arbitrary: s) (auto split: sum.split)

lemma setattr_Obj:
  assumes "setattr obj k v = Inr obj'"
  shows "\<exists>t cattrs dict. obj = Obj t cattrs dict \<and> class_property cattrs k = None \<and>
           obj' = Obj t cattrs (AList.update k v dict)"
  using assms by (cases obj) (auto split: option.splits)




lemma hasattr_getattr: "hasattr obj k \<Longrightarrow> \<exists>v. getattr obj k = Inr v"
  by (cases "getattr obj k") (auto simp: hasattr_def)








lemma instantiate_Obj:
  assumes "instantiate cobj = Inr fresh"
  shows "\<exists>dict. fresh = Obj (cls_type cobj) (cls_attrs cobj) dict"
proof -
  have loop: "for_loop (\<lambda>(name, v) self. setattr self name v) assigns (Obj t cattrs dict) = Inr fresh
      \<Longrightarrow> \<exists>dict'. fresh = Obj t cattrs dict'" for assigns t cattrs dict
  proof (induction assigns arbitrary: dict)
    case Nil
    then show ?case by auto
  next
    case (Cons a assigns)
    obtain n v where a: "a = (n, v)" by (cases a)
    from Cons.prems a obtain self1 where
      step: "setattr (Obj t cattrs dict) n v = Inr self1"
      and rest: "for_loop (\<lambda>(name, v) self. setattr self name v) assigns self1 = Inr fresh"
      by (auto split: sum.splits)
    from setattr_Obj [OF step] obtain dict1 where "self1 = Obj t cattrs dict1"
      by auto
    with Cons.IH rest show ?case
      by blast
  qed
  from assms loop show ?thesis
    by (auto simp: instantiate_def split: option.splits)
qed


lemma instantiate_Config [simp]:
  "instantiate Config = Inr (Obj \<lparr>ty_name = ''Config'', ty_module = ''config''\<rparr> [] [])"
  by (simp add: instantiate_def Config_def)


section \<open>Properties of the schema tree builder\<close>

lemma infer_loop_fresh:
  assumes "distinct (map fst attrs)" and "set (map fst attrs) \<inter> set (map fst al) = {}"
  shows "for_loop (infer_attr (docstrings_of cobj)) attrs (Namespace al, imps) =
           Inr (Namespace (al @ map (inferred_field cobj) (filter (\<lambda>(n, v). \<not> startswith n ''__'') attrs)),
                imps @ map inferred_import
                  (filter (\<lambda>(n, v). \<not> startswith n ''__'' \<and> ty_module (type_of v) \<noteq> ''builtins'') attrs))"
  using assms
proof (induction attrs arbitrary: al imps)
  case Nil
  then show ?case by simp
next
  case (Cons a attrs)
  obtain n v where a: "a = (n, v)" by (cases a)
  from Cons.prems a have absent: "map_of al n = None"
    by (auto simp: map_of_eq_None_iff)
  from Cons.prems a have d: "distinct (map fst attrs)"
    and fresh: "set (map fst attrs) \<inter> set (map fst al) = {}" and nn: "n \<notin> set (map fst attrs)"
    by auto
  show ?case
  proof (cases "startswith n ''__''")
    case True
    with a Cons.IH [OF d fresh] show ?thesis
      by (simp add: infer_attr_def)
  next
    case False
    let ?al = "al @ [inferred_field cobj (n, v)]"
    from fresh nn have "set (map fst attrs) \<inter> set (map fst ?al) = {}"
      by (auto simp: inferred_field_def)
    from Cons.IH [OF d this] False a absent show ?thesis
      by (simp add: infer_attr_def Let_def update_absent inferred_field_def inferred_import_def)
  qed
qed

lemma infer_loop_lookup:
  assumes "distinct (map fst attrs)"
  shows "\<exists>al'. for_loop (infer_attr (docstrings_of cobj)) attrs (Namespace al, imps) =
           Inr (Namespace al',
                imps @ map inferred_import
                  (filter (\<lambda>(n, v). \<not> startswith n ''__'' \<and> ty_module (type_of v) \<noteq> ''builtins'') attrs)) \<and>
         (\<forall>n. map_of al' n =
            (case map_of attrs n of
               None \<Rightarrow> map_of al n
             | Some v \<Rightarrow> if startswith n ''__'' then map_of al n
                         else Some (snd (inferred_field cobj (n, v)))))"
  using assms
proof (induction attrs arbitrary: al imps)
  case Nil
  then show ?case by simp
next
  case (Cons a attrs)
  obtain n v where a: "a = (n, v)" by (cases a)
  from Cons.prems a have d: "distinct (map fst attrs)" and nn: "map_of attrs n = None"
    by (auto simp: map_of_eq_None_iff)
  show ?case
  proof (cases "startswith n ''__''")
    case True
    from Cons.IH [OF d, of al imps] obtain al' where
      "for_loop (infer_attr (docstrings_of cobj)) attrs (Namespace al, imps) =
           Inr (Namespace al',
                imps @ map inferred_import
                  (filter (\<lambda>(n, v). \<not> startswith n ''__'' \<and> ty_module (type_of v) \<noteq> ''builtins'') attrs))"
      and "\<forall>m. map_of al' m =
            (case map_of attrs m of
               None \<Rightarrow> map_of al m
             | Some v \<Rightarrow> if startswith m ''__'' then map_of al m
                         else Some (snd (inferred_field cobj (m, v))))"
      by blast
    with True a nn show ?thesis
      by (auto simp: infer_attr_def)
  next
    case False
    let ?F = "snd (inferred_field cobj (n, v))"
    let ?al = "AList.update n ?F al"
    let ?imps = "if ty_module (type_of v) \<noteq> ''builtins'' then imps @ [inferred_import (n, v)] else imps"
    let ?P = "\<lambda>(n, v). \<not> startswith n ''__'' \<and> ty_module (type_of v) \<noteq> ''builtins''"
    from False have step: "infer_attr (docstrings_of cobj) (n, v) (Namespace al, imps) = Inr (Namespace ?al, ?imps)"
      by (simp add: infer_attr_def Let_def inferred_field_def inferred_import_def)
    from Cons.IH [OF d, of ?al ?imps] obtain al' where
      loop: "for_loop (infer_attr (docstrings_of cobj)) attrs (Namespace ?al, ?imps) =
           Inr (Namespace al', ?imps @ map inferred_import (filter ?P attrs))"
      and look: "\<And>m. map_of al' m =
            (case map_of attrs m of
               None \<Rightarrow> map_of ?al m
             | Some v \<Rightarrow> if startswith m ''__'' then map_of ?al m
                         else Some (snd (inferred_field cobj (m, v))))"
      by blast
    from False have imps_eq: "?imps @ map inferred_import (filter ?P attrs) =
        imps @ map inferred_import (filter ?P ((n, v) # attrs))"
      by simp
    have "for_loop (infer_attr (docstrings_of cobj)) (a # attrs) (Namespace al, imps) =
        Inr (Namespace al', imps @ map inferred_import (filter ?P (a # attrs)))"
      unfolding a by (simp only: for_loop.simps step sum.case loop imps_eq)
    moreover have "map_of al' m =
            (case map_of (a # attrs) m of
               None \<Rightarrow> map_of al m
             | Some v \<Rightarrow> if startswith m ''__'' then map_of al m
                         else Some (snd (inferred_field cobj (m, v))))" for m
    proof (cases "m = n")
      case True
      with nn False look [of n] a show ?thesis
        by (simp add: update_conv')
    next
      case neq: False
      with look [of m] a show ?thesis
        by (simp add: update_conv' split: option.split)
    qed
    ultimately show ?thesis by blast
  qed
qed


text \<open>
  Claim C9, as amended. For every section class (the names of \<^verbatim>\<open>dir\<close> being
  distinct), the first loop of \<^verbatim>\<open>output_stub\<close> succeeds on a dictionary and records
  one field for each attribute whose name does not start with two underscores and none
  for the others. The test is on the name as \<^verbatim>\<open>dir\<close> lists it, so a name with a single
  leading underscore is kept, and so is a private name of the class body, which
  \<^verbatim>\<open>dir\<close> lists in its mangled form \<^verbatim>\<open>_Class__name\<close>. A recorded name maps to the
  \<^verbatim>\<open>__name__\<close> of the runtime type of its value, with its documentation, and every
  other name of the dictionary keeps what it had. One import line
  \<^verbatim>\<open>from module import name\<close> is appended for each recorded field whose type's module
  is not \<^verbatim>\<open>builtins\<close>. On an empty dictionary the result holds exactly these
  fields, in the order of \<^verbatim>\<open>dir\<close>.
\<close>

theorem inferred_fields:
  assumes "distinct (map fst (cls_attrs cobj))"
  shows "(\<exists>al'. for_loop (infer_attr (docstrings_of cobj)) (cls_attrs cobj) (Namespace al, imps) =
           Inr (Namespace al',
                imps @ map inferred_import
                  (filter (\<lambda>(n, v). \<not> startswith n ''__'' \<and> ty_module (type_of v) \<noteq> ''builtins'')
                     (cls_attrs cobj))) \<and>
         (\<forall>n. map_of al' n =
            (case map_of (cls_attrs cobj) n of
               None \<Rightarrow> map_of al n
             | Some v \<Rightarrow>
                 if startswith n ''__'' then map_of al n
                 else Some (Attr (ConfigAttr (ty_name (type_of v)) (docstrings_of cobj n)))))) \<and>
     for_loop (infer_attr (docstrings_of cobj)) (cls_attrs cobj) (Namespace [], imps) =
       Inr (Namespace
              (map (\<lambda>(n, v). (n, Attr (ConfigAttr (ty_name (type_of v)) (docstrings_of cobj n))))
                 (filter (\<lambda>(n, v). \<not> startswith n ''__'') (cls_attrs cobj))),
            imps @ map (\<lambda>(n, v). import_line (ty_module (type_of v)) (ty_name (type_of v)))
                  (filter (\<lambda>(n, v). \<not> startswith n ''__'' \<and> ty_module (type_of v) \<noteq> ''builtins'')
                     (cls_attrs cobj)))"
proof -
  have 1: "inferred_field cobj = (\<lambda>(n, v). (n, Attr (ConfigAttr (ty_name (type_of v)) (docstrings_of cobj n))))"
    by (simp add: inferred_field_def)
  have 2: "inferred_import = (\<lambda>(n, v). import_line (ty_module (type_of v)) (ty_name (type_of v)))"
    by (simp add: inferred_import_def)
  have 3: "snd (inferred_field cobj (n, v)) = Attr (ConfigAttr (ty_name (type_of v)) (docstrings_of cobj n))"
    for n v
    by (simp add: inferred_field_def)
  from infer_loop_lookup [OF assms, of cobj al imps] infer_loop_fresh [OF assms, of "[]" cobj imps]
  show ?thesis
    unfolding 3 unfolding 1 2 by simp
qed


lemma docstrings_example [simp]:
  "docstrings_of example_section = (\<lambda>n. [])(''port'' := ''The port to listen on.'')"
  by (simp add: docstrings_of_def example_section_def)

theorem inferred_fields_witness:
  "distinct (map fst (cls_attrs example_section)) \<and>
   for_loop (infer_attr (docstrings_of example_section)) (cls_attrs example_section)
       (Namespace [], []) =
     Inr (Namespace [(''_hidden'', Attr (ConfigAttr ''int'' [])),
                     (''path'', Attr (ConfigAttr ''PosixPath'' [])),
                     (''port'', Attr (ConfigAttr ''int'' ''The port to listen on.''))],
          [''from pathlib import PosixPath''])"
  using inferred_fields [of example_section "[]" "[]"]
  by (simp add: example_section_def startswith_def import_line_def docstrings_of_def)

text \<open>
  Claim C9 as stated fails: the name-mangled attribute \<^verbatim>\<open>_Secret__token\<close> is not
  excluded. The first loop records a field for it, which the public attributes of the
  class do not include.
\<close>

theorem inferred_mangled_counterexample:
  "for_loop (infer_attr (docstrings_of secret_class)) (cls_attrs secret_class) (Namespace [], []) =
     Inr (Namespace [(''_Secret__token'', Attr (ConfigAttr ''str'' [])),
                     (''limit'', Attr (ConfigAttr ''int'' []))], []) \<and>
   spec_inferred_fields secret_class = [(''limit'', Attr (ConfigAttr ''int'' []))] \<and>
   for_loop (infer_attr (docstrings_of secret_class)) (cls_attrs secret_class) (Namespace [], []) \<noteq>
     Inr (Namespace (spec_inferred_fields secret_class), [])"
  by (simp add: secret_class_def example_class_def infer_attr_def startswith_def docstrings_of_def
      spec_inferred_fields_def spec_is_public_def inferred_field_def)

lemma declare_attr_step:
  assumes "declare_attr docs (n, t) (d, imps, timps) = Inr (d', imps', timps')"
  shows "\<exists>al tname. ann_tname t = Inr tname \<and> d = Namespace al \<and>
           d' = Namespace (AList.update n (Attr (ConfigAttr tname (docs n))) al)"
  using assms
  by (cases d) (auto simp: declare_attr_def split: sum.splits option.splits if_splits)

lemma declare_loop_keeps:
  assumes "for_loop (declare_attr docs) anns (Namespace al, imps, timps) = Inr (d', imps', timps')"
    and "x \<notin> fst ` set anns"
  shows "\<exists>al'. d' = Namespace al' \<and> map_of al' x = map_of al x"
  using assms
proof (induction anns arbitrary: al imps timps)
  case Nil
  then show ?case by auto
next
  case (Cons a anns)
  obtain n t where a: "a = (n, t)" by (cases a)
  from Cons.prems(1) a obtain d1 imps1 timps1 where
    step: "declare_attr docs (n, t) (Namespace al, imps, timps) = Inr (d1, imps1, timps1)"
    and rest: "for_loop (declare_attr docs) anns (d1, imps1, timps1) = Inr (d', imps', timps')"
    by (auto split: sum.splits)
  from declare_attr_step [OF step] obtain tname where
    d1: "d1 = Namespace (AList.update n (Attr (ConfigAttr tname (docs n))) al)"
    by auto
  from Cons.prems(2) a have "x \<noteq> n" and "x \<notin> fst ` set anns"
    by auto
  with Cons.IH [OF rest [unfolded d1]] show ?case
    by (simp add: update_conv')
qed

lemma declare_loop_sets:
  assumes "for_loop (declare_attr docs) anns (d, imps, timps) = Inr (d', imps', timps')"
    and "distinct (map fst anns)" and "(x, t) \<in> set anns"
  shows "\<exists>al' tname. ann_tname t = Inr tname \<and> d' = Namespace al' \<and>
           map_of al' x = Some (Attr (ConfigAttr tname (docs x)))"
  using assms
proof (induction anns arbitrary: d imps timps)
  case Nil
  then show ?case by simp
next
  case (Cons a anns)
  obtain n u where a: "a = (n, u)" by (cases a)
  from Cons.prems(1) a obtain d1 imps1 timps1 where
    step: "declare_attr docs (n, u) (d, imps, timps) = Inr (d1, imps1, timps1)"
    and rest: "for_loop (declare_attr docs) anns (d1, imps1, timps1) = Inr (d', imps', timps')"
    by (auto split: sum.splits)
  from declare_attr_step [OF step] obtain al tname where
    tn: "ann_tname u = Inr tname"
    and d1: "d1 = Namespace (AList.update n (Attr (ConfigAttr tname (docs n))) al)"
    by blast
  show ?case
  proof (cases "(x, t) = (n, u)")
    case True
    with Cons.prems(2) a have "x \<notin> fst ` set anns"
      by auto
    from declare_loop_keeps [OF rest [unfolded d1] this] True tn show ?thesis
      by (auto simp: update_conv')
  next
    case False
    with Cons.prems a have "(x, t) \<in> set anns" and "distinct (map fst anns)"
      by auto
    with Cons.IH [OF rest] show ?thesis
      by blast
  qed
qed

lemma dd_modify_get:
  assumes "dd_modify body ks d = Inr (d', r)"
  shows "\<exists>sub sub'. body sub = Inr (sub', r) \<and> schema_get d' ks = Some sub'"
  using assms
proof (induction ks arbitrary: d d')
  case Nil
  then show ?case by auto
next
  case (Cons k ks)
  from Cons.prems obtain al where d: "d = Namespace al"
    by (cases d) auto
  let ?sub = "case map_of al k of None \<Rightarrow> Namespace [] | Some sub \<Rightarrow> sub"
  from Cons.prems d obtain sub' where
    rec: "dd_modify body ks ?sub = Inr (sub', r)"
    and d': "d' = Namespace (AList.update k sub' al)"
    by (auto split: sum.splits)
  from Cons.IH [OF rec] d' show ?case
    by (auto simp: update_conv')
qed

lemma schema_get_append:
  "schema_get d (ks @ ks') = (case schema_get d ks of None \<Rightarrow> None | Some sub \<Rightarrow> schema_get sub ks')"
  by (induction d ks rule: schema_get.induct) (auto split: option.splits)

text \<open>
  Claim C4. When \<^verbatim>\<open>output_stub\<close> has processed a section without error, then for
  every annotation \<open>x: t\<close> of the class a type name was derived from the annotation
  (the name of a class, the rendering of a \<^verbatim>\<open>typing\<close> construct, the \<^verbatim>\<open>str\<close> of
  anything else), and the schema tree holds, at the path of the section followed by
  \<open>x\<close>, the field with that type, whether or not the class also has an attribute
  \<open>x\<close> with a default value, from which the first loop inferred a type.
\<close>

theorem declared_overrides_inferred:
  assumes "add_section (cname, cobj) (config, imps, timps) = Inr (config', imps', timps')"
    and "cls_annotations cobj = Some anns"
    and "distinct (map fst anns)"
    and "(x, t) \<in> set anns"
  shows "\<exists>tname. ann_tname t = Inr tname \<and>
           schema_get config' (section_path cname @ [x]) =
             Some (Attr (ConfigAttr tname (docstrings_of cobj x)))"
proof -
  from assms(1) have "dd_modify (section_attrs cobj imps timps) (section_path cname) config =
      Inr (config', imps', timps')"
    by (auto simp: add_section_def split: sum.splits)
  from dd_modify_get [OF this] obtain sub sub' where
    body: "section_attrs cobj imps timps sub = Inr (sub', imps', timps')"
    and get: "schema_get config' (section_path cname) = Some sub'"
    by blast
  from body assms(2) obtain d1 imps1 where
    "for_loop (declare_attr (docstrings_of cobj)) anns (d1, imps1, timps) = Inr (sub', imps', timps')"
    by (auto simp: section_attrs_def split: sum.splits)
  from declare_loop_sets [OF this assms(3,4)] obtain al' tname where
    "ann_tname t = Inr tname" and "sub' = Namespace al'"
    and "map_of al' x = Some (Attr (ConfigAttr tname (docstrings_of cobj x)))"
    by blast
  with get show ?thesis
    by (simp add: schema_get_append)
qed

theorem declared_overrides_inferred_witness:
  "add_section (''net.http'', example_section) (Namespace [], [], []) =
     Inr (Namespace [(''net'', Namespace [(''http'', Namespace
            [(''_hidden'', Attr (ConfigAttr ''int'' [])),
             (''path'', Attr (ConfigAttr ''PosixPath'' [])),
             (''port'', Attr (ConfigAttr ''str'' ''The port to listen on.'')),
             (''timeout'', Attr (ConfigAttr ''Optional[float]'' []))])])],
          [''from pathlib import PosixPath''], [''Optional'']) \<and>
   cls_annotations example_section =
     Some [(''timeout'', ATyping (UnionT [ClassT ''float'', NoneT])),
           (''port'', AClass \<lparr>ty_name = ''str'', ty_module = ''builtins''\<rparr>)] \<and>
   map_of (cls_attrs example_section) ''port'' = Some (Atom (IntV 8080)) \<and>
   schema_get
     (Namespace [(''net'', Namespace [(''http'', Namespace
            [(''_hidden'', Attr (ConfigAttr ''int'' [])),
             (''path'', Attr (ConfigAttr ''PosixPath'' [])),
             (''port'', Attr (ConfigAttr ''str'' ''The port to listen on.'')),
             (''timeout'', Attr (ConfigAttr ''Optional[float]'' []))])])])
     [''net'', ''http'', ''port''] =
     Some (Attr (ConfigAttr ''str'' ''The port to listen on.''))"
proof -
  have run: "add_section (''net.http'', example_section) (Namespace [], [], []) =
     Inr (Namespace [(''net'', Namespace [(''http'', Namespace
            [(''_hidden'', Attr (ConfigAttr ''int'' [])),
             (''path'', Attr (ConfigAttr ''PosixPath'' [])),
             (''port'', Attr (ConfigAttr ''str'' ''The port to listen on.'')),
             (''timeout'', Attr (ConfigAttr ''Optional[float]'' []))])])],
          [''from pathlib import PosixPath''], [''Optional''])"
    by (simp add: add_section_def section_path_def section_attrs_def infer_attr_def
        declare_attr_def startswith_def import_line_def example_section_def docstrings_of_def)
  have anns: "cls_annotations example_section =
     Some [(''timeout'', ATyping (UnionT [ClassT ''float'', NoneT])),
           (''port'', AClass \<lparr>ty_name = ''str'', ty_module = ''builtins''\<rparr>)]"
    by (simp add: example_section_def)
  from declared_overrides_inferred [OF run anns, of "''port''" "AClass \<lparr>ty_name = ''str'', ty_module = ''builtins''\<rparr>"]
  show ?thesis
    using run anns by (simp add: section_path_def example_section_def)
qed

section \<open>Properties of splitting and joining\<close>

lemma split_on_nonempty: "split_on sep s \<noteq> []"
  by (induction s) (auto split: list.splits)

lemma split_on_sepfree: "w \<in> set (split_on sep s) \<Longrightarrow> sep \<notin> set w"
  by (induction s arbitrary: w) (auto split: list.splits if_splits)

lemma join_Cons: "ys \<noteq> [] \<Longrightarrow> join sep (x # ys) = x @ sep @ join sep ys"
  by (cases ys) simp_all

lemma join_split_on: "join [sep] (split_on sep s) = s"
proof (induction s)
  case Nil
  then show ?case by simp
next
  case (Cons c s)
  show ?case
  proof (cases "c = sep")
    case True
    with Cons show ?thesis
      by (simp add: join_Cons split_on_nonempty)
  next
    case False
    obtain w ws where sp: "split_on sep s = w # ws"
      using split_on_nonempty [of sep s] by (cases "split_on sep s") auto
    with Cons False show ?thesis
      by (cases ws) auto
  qed
qed

lemma split_on_sepfree_word: "sep \<notin> set w \<Longrightarrow> split_on sep w = [w]"
  by (induction w) auto

lemma split_on_append:
  "sep \<notin> set w \<Longrightarrow> split_on sep (w @ sep # s) = w # split_on sep s"
  by (induction w) auto

lemma split_on_join:
  "xs \<noteq> [] \<Longrightarrow> \<forall>w \<in> set xs. sep \<notin> set w \<Longrightarrow> split_on sep (join [sep] xs) = xs"
proof (induction xs)
  case Nil
  then show ?case by simp
next
  case (Cons x xs)
  show ?case
  proof (cases xs)
    case Nil
    with Cons.prems show ?thesis
      by (simp add: split_on_sepfree_word)
  next
    case (Cons y ys)
    with Cons.IH Cons.prems have "split_on sep (join [sep] xs) = xs"
      by simp
    with Cons Cons.prems show ?thesis
      by (simp add: split_on_append)
  qed
qed

section \<open>Properties of flattening\<close>

lemma dotfree_getattr: "dotfree obj \<Longrightarrow> getattr obj k = Inr v \<Longrightarrow> dotfree v"
  by (cases obj) (auto simp: list_all_iff split: option.splits dest!: map_of_SomeD)

lemma dotfree_recursive_getattr:
  "dotfree obj \<Longrightarrow> recursive_getattr obj ks = Inr v \<Longrightarrow> dotfree v"
proof (induction obj ks rule: recursive_getattr.induct)
  case (1 obj)
  then show ?case by simp
next
  case (2 obj k)
  then show ?case by (simp add: dotfree_getattr)
next
  case (3 obj k k' ks)
  then show ?case
    by (auto split: sum.splits dest: dotfree_getattr)
qed

lemma dotfree_dir: "dotfree obj \<Longrightarrow> i \<in> set (dir obj) \<Longrightarrow> CHR ''.'' \<notin> set i"
  by (cases obj) (auto simp: list_all_iff)

lemma set_update_cases:
  "(k', v') \<in> set (AList.update k v al) \<Longrightarrow> (k', v') = (k, v) \<or> (k', v') \<in> set al"
  by (induction al) (auto split: if_splits)

lemma to_dict_attr_entries:
  assumes "to_dict_attr ccs csplit subcfg i d = Inr d'" and "(k, v) \<in> set d'"
  shows "(k, v) \<in> set d \<or>
         (k = join ''.'' (csplit @ [i]) \<and> \<not> startswith i ''__'' \<and> getattr subcfg i = Inr v \<and>
          \<not> isinstance v ccs)"
  using assms
  by (auto simp: to_dict_attr_def split: if_splits sum.splits dest: set_update_cases)

lemma to_dict_inner_entries:
  assumes "for_loop (to_dict_attr ccs csplit subcfg) names d = Inr d'" and "(k, v) \<in> set d'"
  shows "(k, v) \<in> set d \<or>
         (\<exists>i \<in> set names. k = join ''.'' (csplit @ [i]) \<and> \<not> startswith i ''__'' \<and>
            getattr subcfg i = Inr v \<and> \<not> isinstance v ccs)"
  using assms
proof (induction names arbitrary: d)
  case Nil
  then show ?case by simp
next
  case (Cons i names)
  from Cons.prems(1) obtain d1 where
    step: "to_dict_attr ccs csplit subcfg i d = Inr d1"
    and rest: "for_loop (to_dict_attr ccs csplit subcfg) names d1 = Inr d'"
    by (auto split: sum.splits)
  from Cons.IH [OF rest Cons.prems(2)] to_dict_attr_entries [OF step, of k v]
  show ?case by auto
qed

lemma config_to_dict_alt:
  "config_to_dict Config_cls reg config =
     for_loop (to_dict_section (map snd reg @ [Config_cls]) config) reg []"
  by (simp add: config_to_dict_def Let_def)

lemma to_dict_section_entries:
  assumes "to_dict_section ccs config (cname, cobj) d = Inr d'" and "(k, v) \<in> set d'"
  shows "(k, v) \<in> set d \<or>
         (\<exists>subcfg i. section_object config cname subcfg \<and> i \<in> set (dir subcfg) \<and>
            k = join ''.'' (section_path cname @ [i]) \<and> \<not> startswith i ''__'' \<and>
            getattr subcfg i = Inr v \<and> \<not> isinstance v ccs)"
proof (cases "cname = ''@base''")
  case True
  with assms(1) have "for_loop (to_dict_attr ccs [] config) (dir config) d = Inr d'"
    by (simp add: to_dict_section_def)
  from to_dict_inner_entries [OF this assms(2)] True show ?thesis
    by (auto simp: section_object_def section_path_def)
next
  case False
  with assms(1) obtain subcfg where
    sub: "recursive_getattr config (split_on CHR ''.'' cname) = Inr subcfg"
    and loop: "for_loop (to_dict_attr ccs (split_on CHR ''.'' cname) subcfg) (dir subcfg) d = Inr d'"
    by (auto simp: to_dict_section_def split: sum.splits)
  from to_dict_inner_entries [OF loop assms(2)] False sub show ?thesis
    by (auto simp: section_object_def section_path_def)
qed

lemma to_dict_outer_entries:
  assumes "for_loop (to_dict_section ccs config) secs d = Inr d'" and "(k, v) \<in> set d'"
  shows "(k, v) \<in> set d \<or>
         (\<exists>(cname, cobj) \<in> set secs. \<exists>subcfg i.
            section_object config cname subcfg \<and> i \<in> set (dir subcfg) \<and>
            k = join ''.'' (section_path cname @ [i]) \<and> \<not> startswith i ''__'' \<and>
            getattr subcfg i = Inr v \<and> \<not> isinstance v ccs)"
  using assms
proof (induction secs arbitrary: d)
  case Nil
  then show ?case by simp
next
  case (Cons sec secs)
  obtain cname cobj where sec: "sec = (cname, cobj)" by (cases sec)
  from Cons.prems(1) sec obtain d1 where
    step: "to_dict_section ccs config (cname, cobj) d = Inr d1"
    and rest: "for_loop (to_dict_section ccs config) secs d1 = Inr d'"
    by (auto split: sum.splits)
  from Cons.IH [OF rest Cons.prems(2)] to_dict_section_entries [OF step, of k v] sec
  show ?case by auto
qed

lemma config_to_dict_origin:
  assumes "config_to_dict Config_cls reg config = Inr d" and "(k, v) \<in> set d"
  shows "\<exists>(cname, cobj) \<in> set reg. \<exists>subcfg i.
            section_object config cname subcfg \<and> i \<in> set (dir subcfg) \<and>
            k = join ''.'' (section_path cname @ [i]) \<and> \<not> startswith i ''__'' \<and>
            getattr subcfg i = Inr v \<and> \<not> isinstance v (map snd reg @ [Config_cls])"
proof -
  from assms(1) have
    "for_loop (to_dict_section (map snd reg @ [Config_cls]) config) reg [] = Inr d"
    by (simp add: config_to_dict_alt)
  from to_dict_outer_entries [OF this assms(2)] show ?thesis
    by simp
qed

lemma key_of_unregistered:
  assumes sec: "(cname, cobj) \<in> set reg"
    and i': "CHR ''.'' \<notin> set i'"
    and p: "split_on CHR ''.'' p = ps @ [i]"
    and unreg: "if ps = [] then ''@base'' \<notin> fst ` set reg else join ''.'' ps \<notin> fst ` set reg"
  shows "p \<noteq> join ''.'' (section_path cname @ [i'])"
proof
  assume eq: "p = join ''.'' (section_path cname @ [i'])"
  show False
  proof (cases "cname = ''@base''")
    case True
    with eq have "p = i'" by (simp add: section_path_def)
    with i' p have "ps = []"
      by (simp add: split_on_sepfree_word)
    with unreg sec True show False
      by force
  next
    case False
    let ?cs = "split_on CHR ''.'' cname"
    have "\<forall>w \<in> set (?cs @ [i']). CHR ''.'' \<notin> set w"
      using i' by (auto dest: split_on_sepfree)
    then have "split_on CHR ''.'' (join ''.'' (?cs @ [i'])) = ?cs @ [i']"
      by (intro split_on_join) simp_all
    with eq False p have "ps = ?cs"
      by (simp add: section_path_def)
    then have "ps \<noteq> []" and "join ''.'' ps = cname"
      by (simp_all add: split_on_nonempty join_split_on)
    with unreg sec show False
      by force
  qed
qed

text \<open>
  Claim C10. Every entry of the mapping that \<^verbatim>\<open>config_to_dict\<close> returns comes from a
  registered section: its value is an attribute, not starting with two underscores,
  of the object at the path of that section (the root for \<^verbatim>\<open>@base\<close>), it is not an
  instance of a registered class or of the generic base class, and its key is the
  path of the section joined with the name. Consequently, for every instance whose
  attribute names hold no dot (in particular one that \<^verbatim>\<open>update_config\<close> has written
  to), a dotted path whose prefix is not the name of a registered section (for a path
  of one segment: when \<^verbatim>\<open>@base\<close> is not registered) is not a key of the mapping,
  whatever was stored under it.
\<close>

theorem config_to_dict_sections_only:
  assumes "config_to_dict Config_cls reg config = Inr d"
  shows "(\<forall>(k, v) \<in> set d. \<exists>(cname, cobj) \<in> set reg. \<exists>subcfg i.
            (if cname = ''@base'' then subcfg = config
             else recursive_getattr config (split_on CHR ''.'' cname) = Inr subcfg) \<and>
            i \<in> set (dir subcfg) \<and> \<not> startswith i ''__'' \<and>
            getattr subcfg i = Inr v \<and>
            \<not> isinstance v (map snd reg @ [Config_cls]) \<and>
            k = join ''.'' (section_path cname @ [i])) \<and>
         (dotfree config \<and> split_on CHR ''.'' p = ps @ [i] \<and>
          (if ps = [] then ''@base'' \<notin> fst ` set reg else join ''.'' ps \<notin> fst ` set reg)
            \<longrightarrow> p \<notin> fst ` set d)"
proof (intro conjI impI)
  have origin: "\<exists>(cname, cobj) \<in> set reg. \<exists>subcfg i.
            section_object config cname subcfg \<and> i \<in> set (dir subcfg) \<and>
            k = join ''.'' (section_path cname @ [i]) \<and> \<not> startswith i ''__'' \<and>
            getattr subcfg i = Inr v \<and> \<not> isinstance v (map snd reg @ [Config_cls])"
    if "(k, v) \<in> set d" for k v
    using config_to_dict_origin [OF assms that] .
  then show "\<forall>(k, v) \<in> set d. \<exists>(cname, cobj) \<in> set reg. \<exists>subcfg i.
            (if cname = ''@base'' then subcfg = config
             else recursive_getattr config (split_on CHR ''.'' cname) = Inr subcfg) \<and>
            i \<in> set (dir subcfg) \<and> \<not> startswith i ''__'' \<and>
            getattr subcfg i = Inr v \<and>
            \<not> isinstance v (map snd reg @ [Config_cls]) \<and>
            k = join ''.'' (section_path cname @ [i])"
    unfolding section_object_def by fast
  assume a: "dotfree config \<and> split_on CHR ''.'' p = ps @ [i] \<and>
          (if ps = [] then ''@base'' \<notin> fst ` set reg else join ''.'' ps \<notin> fst ` set reg)"
  show "p \<notin> fst ` set d"
  proof
    assume "p \<in> fst ` set d"
    then obtain v where "(p, v) \<in> set d" by auto
    from origin [OF this] obtain cname cobj subcfg i' where
      sec: "(cname, cobj) \<in> set reg" and so: "section_object config cname subcfg"
      and i': "i' \<in> set (dir subcfg)" and p: "p = join ''.'' (section_path cname @ [i'])"
      by blast
    from so a have "dotfree subcfg"
      by (auto simp: section_object_def split: if_splits dest: dotfree_recursive_getattr)
    from this i' have "CHR ''.'' \<notin> set i'"
      by (rule dotfree_dir)
    from key_of_unregistered [OF sec this] a p show False
      by blast
  qed
qed


theorem config_to_dict_sections_only_witness:
  "update_config Config (Obj \<lparr>ty_name = ''Root'', ty_module = ''app''\<rparr>
           [(''debug'', Atom (BoolV False))] []) [(''a.b'', Atom (IntV 5))] =
     Inr (Obj \<lparr>ty_name = ''Root'', ty_module = ''app''\<rparr>
           [(''debug'', Atom (BoolV False))]
           [(''a'', Obj \<lparr>ty_name = ''Config'', ty_module = ''config''\<rparr> [] [(''b'', Atom (IntV 5))])]) \<and>
   config_to_dict Config [(''@base'', example_root)]
     (Obj \<lparr>ty_name = ''Root'', ty_module = ''app''\<rparr>
           [(''debug'', Atom (BoolV False))]
           [(''a'', Obj \<lparr>ty_name = ''Config'', ty_module = ''config''\<rparr> [] [(''b'', Atom (IntV 5))])]) =
     Inr [(''debug'', Atom (BoolV False))] \<and>
   ''a.b'' \<notin> fst ` set [(''debug'', Atom (BoolV False))]"
proof -
  let ?root = "Obj \<lparr>ty_name = ''Root'', ty_module = ''app''\<rparr> [(''debug'', Atom (BoolV False))] []"
  let ?config = "Obj \<lparr>ty_name = ''Root'', ty_module = ''app''\<rparr>
           [(''debug'', Atom (BoolV False))]
           [(''a'', Obj \<lparr>ty_name = ''Config'', ty_module = ''config''\<rparr> [] [(''b'', Atom (IntV 5))])]"
  have upd: "update_config Config ?root [(''a.b'', Atom (IntV 5))] = Inr ?config"
    by (simp add: update_config_def hasattr_def class_property_def)
  have run: "config_to_dict Config [(''@base'', example_root)] ?config =
      Inr [(''debug'', Atom (BoolV False))]"
    by (simp add: config_to_dict_def to_dict_section_def to_dict_attr_def startswith_def
        isinstance_def example_root_def example_class_def Config_def class_property_def)
  from config_to_dict_sections_only [OF run, of "''a.b''" "[''a'']" "''b''"] upd run
  show ?thesis
    by simp
qed

section \<open>Properties of the round trip\<close>


lemma for_loop_invariant:
  assumes "for_loop body xs s = Inr s'" and "P s"
    and "\<And>x s s'. x \<in> set xs \<Longrightarrow> P s \<Longrightarrow> body x s = Inr s' \<Longrightarrow> P s'"
  shows "P s'"
  using assms
proof (induction xs arbitrary: s)
  case Nil
  then show ?case by simp
next
  case (Cons x xs)
  from Cons.prems(1) obtain s1 where step: "body x s = Inr s1" and rest: "for_loop body xs s1 = Inr s'"
    by (auto split: sum.splits)
  from Cons.prems(3) [OF _ Cons.prems(2) step] have "P s1" by simp
  show ?case
  proof (rule Cons.IH [OF rest \<open>P s1\<close>])
    fix y t t'
    assume "y \<in> set xs" and "P t" and "body y t = Inr t'"
    then show "P t'"
      using Cons.prems(3) [of y t t'] by simp
  qed
qed

lemma list_all_update:
  "list_all P al \<Longrightarrow> P (k, v) \<Longrightarrow> list_all P (AList.update k v al)"
  by (induction al) auto



lemma to_dict_sections_resolve:
  assumes "for_loop (to_dict_section ccs config) secs d = Inr d'"
    and "(cname, cobj) \<in> set secs" and "cname \<noteq> ''@base''"
  shows "\<exists>subcfg. recursive_getattr config (split_on CHR ''.'' cname) = Inr subcfg"
  using assms
proof (induction secs arbitrary: d)
  case Nil
  then show ?case by simp
next
  case (Cons sec secs)
  from Cons.prems(1) obtain d1 where
    step: "to_dict_section ccs config sec d = Inr d1"
    and rest: "for_loop (to_dict_section ccs config) secs d1 = Inr d'"
    by (auto split: sum.splits)
  show ?case
  proof (cases "sec = (cname, cobj)")
    case True
    with step Cons.prems(3) show ?thesis
      by (auto simp: to_dict_section_def split: sum.splits)
  next
    case False
    with Cons.prems(2) have "(cname, cobj) \<in> set secs" by simp
    from Cons.IH [OF rest this Cons.prems(3)] show ?thesis .
  qed
qed



























lemma instantiate_example_root [simp]:
  "instantiate example_root =
     Inr (Obj \<lparr>ty_name = ''Root'', ty_module = ''app''\<rparr> [(''debug'', Atom (BoolV False))] [])"
  by (simp add: instantiate_def example_root_def example_class_def)

lemma instantiate_example_section [simp]:
  "instantiate example_section =
     Inr (Obj \<lparr>ty_name = ''Http'', ty_module = ''app.net''\<rparr> (cls_attrs example_section) [])"
  by (simp add: instantiate_def example_section_def)



section \<open>The order of the fields in a block\<close>

text \<open>
  Claim C1 fails on the code: the sort key of a field is its name after an underscore
  and that of a namespace is its bare name, so a namespace whose name sorts before the
  underscore (one that starts with a capital letter or a digit) is emitted before the
  fields of its block. With a root section that has the attribute \<^verbatim>\<open>port\<close> and a
  section \<^verbatim>\<open>Net\<close>, the class \<^verbatim>\<open>Net\<close> precedes \<^verbatim>\<open>port: int\<close>.
\<close>

theorem namespace_before_leaf:
  "build_schema
     [(''@base'', example_class ''Root'' [(''port'', Atom (IntV 8080))]),
      (''Net'', example_class ''Net'' [(''x'', Atom (IntV 1))])] =
     Inr (Namespace [(''port'', Attr (ConfigAttr ''int'' [])),
                     (''Net'', Namespace [(''x'', Attr (ConfigAttr ''int'' []))])], [], []) \<and>
   output_stub_f ''Config''
     [(''port'', Attr (ConfigAttr ''int'' [])),
      (''Net'', Namespace [(''x'', Attr (ConfigAttr ''int'' []))])] 0 =
   ''class Config:\<newline>    class Net:\<newline>        x: int\<newline>    port: int\<newline>''"
proof
  show "build_schema
     [(''@base'', example_class ''Root'' [(''port'', Atom (IntV 8080))]),
      (''Net'', example_class ''Net'' [(''x'', Atom (IntV 1))])] =
     Inr (Namespace [(''port'', Attr (ConfigAttr ''int'' [])),
                     (''Net'', Namespace [(''x'', Attr (ConfigAttr ''int'' []))])], [], [])"
    by (simp add: build_schema_def add_section_def section_path_def section_attrs_def infer_attr_def
        startswith_def example_class_def docstrings_of_def)
  have inner: "output_stub_f ''Net'' [(''x'', Attr (ConfigAttr ''int'' []))] (Suc 0) =
     ''    class Net:\<newline>        x: int\<newline>''"
    by (subst output_stub_f.simps) (simp add: indent_def)
  show "output_stub_f ''Config''
     [(''port'', Attr (ConfigAttr ''int'' [])),
      (''Net'', Namespace [(''x'', Attr (ConfigAttr ''int'' []))])] 0 =
   ''class Config:\<newline>    class Net:\<newline>        x: int\<newline>    port: int\<newline>''"
    by (subst output_stub_f.simps) (simp add: indent_def inner)
qed

section \<open>Determinism of the stub\<close>

lemma infer_loop_explicit:
  assumes "for_loop (infer_attr (docstrings_of cobj)) attrs (d, imps) = Inr (d', imps')"
  shows "imps' = imps @ map inferred_import
            (filter (\<lambda>(n, v). \<not> startswith n ''__'' \<and> ty_module (type_of v) \<noteq> ''builtins'') attrs) \<and>
         (case d of
            Namespace al \<Rightarrow>
              d' = Namespace (fold put
                (map (inferred_field cobj) (filter (\<lambda>(n, v). \<not> startswith n ''__'') attrs)) al)
          | Attr a \<Rightarrow> d' = d \<and> filter (\<lambda>(n, v). \<not> startswith n ''__'') attrs = [])"
  using assms
proof (induction attrs arbitrary: d imps)
  case Nil
  then show ?case by (auto split: schema.splits)
next
  case (Cons x attrs)
  obtain n v where x: "x = (n, v)" by (cases x)
  from Cons.prems x obtain d1 imps1 where
    step: "infer_attr (docstrings_of cobj) (n, v) (d, imps) = Inr (d1, imps1)"
    and rest: "for_loop (infer_attr (docstrings_of cobj)) attrs (d1, imps1) = Inr (d', imps')"
    by (auto split: sum.splits)
  show ?case
  proof (cases "startswith n ''__''")
    case True
    with step have "d1 = d" "imps1 = imps"
      by (simp_all add: infer_attr_def)
    with Cons.IH [of d imps] rest True x show ?thesis
      by (auto split: schema.splits)
  next
    case False
    with step obtain al where d: "d = Namespace al"
      and d1: "d1 = Namespace (put (inferred_field cobj (n, v)) al)"
      and imps1: "imps1 = (if ty_module (type_of v) \<noteq> ''builtins''
                           then imps @ [inferred_import (n, v)] else imps)"
      by (cases d)
        (auto simp: infer_attr_def Let_def put_def inferred_field_def inferred_import_def
          split: sum.splits if_splits)
    from Cons.IH [OF rest [unfolded d1 imps1]] False x d show ?thesis
      by simp
  qed
qed

lemma declare_loop_explicit:
  assumes "for_loop (declare_attr (docstrings_of cobj)) anns (d, imps, timps) = Inr (d', imps', timps')"
  shows "imps' = imps @ concat (map declared_import anns) \<and>
         timps' = timps @ concat (map (\<lambda>(n, t). rendered (ann_typing_imports t)) anns) \<and>
         (case d of
            Namespace al \<Rightarrow> d' = Namespace (fold put (map (declared_field cobj) anns) al)
          | Attr a \<Rightarrow> d' = d \<and> anns = [])"
  using assms
proof (induction anns arbitrary: d imps timps)
  case Nil
  then show ?case by (auto split: schema.splits)
next
  case (Cons x anns)
  obtain n t where x: "x = (n, t)" by (cases x)
  from Cons.prems x obtain d1 imps1 timps1 where
    step: "declare_attr (docstrings_of cobj) (n, t) (d, imps, timps) = Inr (d1, imps1, timps1)"
    and rest: "for_loop (declare_attr (docstrings_of cobj)) anns (d1, imps1, timps1) =
        Inr (d', imps', timps')"
    by (auto split: sum.splits)
  from step obtain al where d: "d = Namespace al"
    and d1: "d1 = Namespace (put (declared_field cobj (n, t)) al)"
    and imps1: "imps1 = imps @ declared_import (n, t)"
    and timps1: "timps1 = timps @ rendered (ann_typing_imports t)"
    by (cases d)
      (auto simp: declare_attr_def put_def declared_field_def declared_import_def rendered_def
        split: sum.splits if_splits option.splits)
  from Cons.IH [OF rest [unfolded d1 imps1 timps1]] x d show ?case
    by simp
qed

lemma section_attrs_explicit:
  assumes "section_attrs cobj imps timps d = Inr (d', imps', timps')"
  shows "imps' = imps @ section_imports cobj \<and>
         timps' = timps @ section_typing_imports cobj \<and>
         (case d of
            Namespace al \<Rightarrow> d' = Namespace (fold put (section_fields cobj) al)
          | Attr a \<Rightarrow> d' = d \<and> section_fields cobj = [])"
proof -
  from assms obtain d1 imps1 where
    l1: "for_loop (infer_attr (docstrings_of cobj)) (cls_attrs cobj) (d, imps) = Inr (d1, imps1)"
    and l2: "for_loop (declare_attr (docstrings_of cobj)) (annotations_of cobj) (d1, imps1, timps) =
        Inr (d', imps', timps')"
    by (auto simp: section_attrs_def annotations_of_def split: sum.splits)
  from infer_loop_explicit [OF l1] declare_loop_explicit [OF l2] show ?thesis
    by (cases d) (auto simp: section_imports_def section_typing_imports_def section_fields_def)
qed

lemma shape_Nil [simp]: "shape t [] = Some (kind_of t)"
  by (simp add: shape_def)

lemma shape_Attr_Cons [simp]: "shape (Attr a) (k # ks) = None"
  by (simp add: shape_def)

lemma shape_Namespace_Cons:
  "shape (Namespace al) (k # ks) = (case map_of al k of None \<Rightarrow> None | Some sub \<Rightarrow> shape sub ks)"
  by (simp add: shape_def split: option.splits)

lemma map_of_fold_put:
  "map_of (fold put fs al) k = (case map_of (rev fs) k of None \<Rightarrow> map_of al k | Some v \<Rightarrow> Some v)"
proof (induction fs arbitrary: al)
  case Nil
  then show ?case by simp
next
  case (Cons f fs)
  obtain n v where f: "f = (n, v)" by (cases f)
  have "put (n, v) al = AList.update n v al"
    by (simp add: put_def)
  then show ?case
    unfolding f by (simp add: Cons.IH update_conv' map_add_def split: option.splits)
qed

lemma section_fields_are_attrs: "(k, v) \<in> set (section_fields cobj) \<Longrightarrow> \<exists>a. v = Attr a"
  by (auto simp: section_fields_def inferred_field_def declared_field_def)

lemma effect_Nil_path [simp]: "section_effect sp fs [] = Some (Some KNode)"
  by (simp add: section_effect_def)

lemma effect_Cons_Cons_same [simp]:
  "section_effect (k # ks) fs (k # rest) = section_effect ks fs rest"
  by (simp add: section_effect_def)

lemma effect_Cons_Cons_other [simp]:
  "k' \<noteq> k \<Longrightarrow> section_effect (k # ks) fs (k' # rest) = None"
  by (simp add: section_effect_def)

lemma effect_Nil_section:
  "section_effect [] fs (k # rest) =
     (case map_of (rev fs) k of
        None \<Rightarrow> None
      | Some v \<Rightarrow> if rest = [] then Some (Some (kind_of v)) else Some None)"
  by (simp add: section_effect_def)

lemma shape_after_fields:
  assumes "\<And>k v. (k, v) \<in> set fs \<Longrightarrow> \<exists>a. v = Attr a"
  shows "shape (Namespace (fold put fs al)) =
           override (section_effect [] fs) (shape (Namespace al))"
proof
  fix path
  show "shape (Namespace (fold put fs al)) path =
           override (section_effect [] fs) (shape (Namespace al)) path"
  proof (cases path)
    case Nil
    then show ?thesis by (simp add: override_def)
  next
    case (Cons k rest)
    show ?thesis
    proof (cases "map_of (rev fs) k")
      case None
      with Cons show ?thesis
        by (simp add: override_def effect_Nil_section shape_Namespace_Cons map_of_fold_put)
    next
      case (Some v)
      then have "(k, v) \<in> set fs"
        by (auto dest: map_of_SomeD)
      with assms obtain a where "v = Attr a" by blast
      with Some Cons show ?thesis
        by (cases rest)
          (simp_all add: override_def effect_Nil_section shape_Namespace_Cons map_of_fold_put)
    qed
  qed
qed

lemma dd_modify_shape:
  assumes "dd_modify (section_attrs cobj imps timps) sp t = Inr (t', r)"
    and "shape t sp = None \<or> shape t sp = Some KNode"
  shows "shape t' = override (section_effect sp (section_fields cobj)) (shape t)"
  using assms
proof (induction sp arbitrary: t t')
  case Nil
  from Nil.prems(2) obtain al where t: "t = Namespace al"
    by (cases t) auto
  from Nil.prems(1) t obtain imps' timps' where
    "section_attrs cobj imps timps (Namespace al) = Inr (t', imps', timps')"
    by (cases r) auto
  from section_attrs_explicit [OF this] have "t' = Namespace (fold put (section_fields cobj) al)"
    by simp
  with t show ?case
    by (simp add: shape_after_fields section_fields_are_attrs)
next
  case (Cons k ks)
  from Cons.prems(1) obtain al where t: "t = Namespace al"
    by (cases t) auto
  let ?sub = "case map_of al k of None \<Rightarrow> Namespace [] | Some sub \<Rightarrow> sub"
  from Cons.prems(1) t obtain sub' where
    rec: "dd_modify (section_attrs cobj imps timps) ks ?sub = Inr (sub', r)"
    and t': "t' = Namespace (AList.update k sub' al)"
    by (auto split: sum.splits)
  have pre: "shape ?sub ks = None \<or> shape ?sub ks = Some KNode"
  proof (cases "map_of al k")
    case None
    then show ?thesis
      by (cases ks) (simp_all add: shape_Namespace_Cons)
  next
    case (Some s)
    with Cons.prems(2) t show ?thesis
      by (simp add: shape_Namespace_Cons)
  qed
  from Cons.IH [OF rec pre] have IH:
    "shape sub' = override (section_effect ks (section_fields cobj)) (shape ?sub)" .
  show ?case
  proof
    fix path
    show "shape t' path = override (section_effect (k # ks) (section_fields cobj)) (shape t) path"
    proof (cases path)
      case Nil
      then show ?thesis by (simp add: override_def t')
    next
      case (Cons k' rest)
      show ?thesis
      proof (cases "k' = k")
        case False
        with Cons t t' show ?thesis
          by (simp add: override_def shape_Namespace_Cons update_conv')
      next
        case True
        have "shape t' path = shape sub' rest"
          using Cons True t' by (simp add: shape_Namespace_Cons update_conv')
        also have "\<dots> = override (section_effect ks (section_fields cobj)) (shape ?sub) rest"
          by (simp only: IH)
        also have "\<dots> = override (section_effect ks (section_fields cobj)) (shape t \<circ> (#) k) rest"
        proof (cases "map_of al k")
          case None
          then show ?thesis
            using t by (cases rest) (simp_all add: override_def shape_Namespace_Cons split: option.splits)
        next
          case (Some s)
          then show ?thesis
            using t by (simp add: override_def shape_Namespace_Cons split: option.splits)
        qed
        finally show ?thesis
          using Cons True by (simp add: override_def split: option.splits)
      qed
    qed
  qed
qed

lemma explains_unique: "explains S sh \<Longrightarrow> explains S sh' \<Longrightarrow> sh = sh'"
proof
  fix path
  assume a: "explains S sh" and b: "explains S sh'"
  show "sh path = sh' path"
  proof (cases "\<exists>s \<in> S. \<exists>r. effect_of s path = Some r")
    case True
    with a b show ?thesis
      unfolding explains_def by metis
  next
    case False
    then have "\<forall>s \<in> S. effect_of s path = None"
      by auto
    with a b show ?thesis
      unfolding explains_def by metis
  qed
qed

lemma section_effect_cases:
  assumes "section_effect sp fs path = Some r"
  shows "(prefix path sp \<and> r = Some KNode) \<or>
         (\<exists>k rest v. path = sp @ k # rest \<and> k \<in> fst ` set fs \<and>
            r = (if rest = [] then Some (kind_of v) else None))"
proof (cases "prefix path sp")
  case True
  with assms show ?thesis
    by (simp add: section_effect_def)
next
  case False
  with assms have p: "prefix sp path"
    by (auto simp: section_effect_def split: if_splits)
  then obtain zs where path: "path = sp @ zs"
    by (auto simp: prefix_def)
  with False assms obtain k rest v where zs: "zs = k # rest"
    and m: "map_of (rev fs) k = Some v"
    and r: "r = (if rest = [] then Some (kind_of v) else None)"
    by (cases zs) (auto simp: section_effect_def split: option.splits if_splits)
  from m have "k \<in> fst ` set fs"
    by (force dest: map_of_SomeD)
  with path zs r show ?thesis
    by blast
qed

lemma effects_compatible:
  assumes e1: "section_effect sp fs path = Some r"
    and e2: "section_effect sp' fs' path = Some r'"
    and nc1: "\<forall>x \<in> fst ` set fs. \<not> prefix (sp @ [x]) sp'"
    and nc2: "\<forall>x \<in> fst ` set fs'. \<not> prefix (sp' @ [x]) sp"
    and ne: "sp \<noteq> sp'"
  shows "r = r'"
proof -
  from section_effect_cases [OF e1] section_effect_cases [OF e2]
  consider (nn) "r = Some KNode" "r' = Some KNode"
    | (nf) k rest where "prefix path sp" "path = sp' @ k # rest" "k \<in> fst ` set fs'"
    | (fn) k rest where "prefix path sp'" "path = sp @ k # rest" "k \<in> fst ` set fs"
    | (ff) k rest k' rest' where "path = sp @ k # rest" "k \<in> fst ` set fs"
        "path = sp' @ k' # rest'" "k' \<in> fst ` set fs'"
    by blast
  then show ?thesis
  proof cases
    case nn
    then show ?thesis by simp
  next
    case (nf k rest)
    then have "prefix (sp' @ [k]) sp"
      by (auto simp: prefix_def)
    with nc2 nf show ?thesis by blast
  next
    case (fn k rest)
    then have "prefix (sp @ [k]) sp'"
      by (auto simp: prefix_def)
    with nc1 fn show ?thesis by blast
  next
    case (ff k rest k' rest')
    then have "sp @ k # rest = sp' @ k' # rest'"
      by simp
    then consider us where "sp = sp' @ us" "us @ k # rest = k' # rest'"
      | us where "sp @ us = sp'" "k # rest = us @ k' # rest'"
      by (auto simp: append_eq_append_conv2)
    then show ?thesis
    proof cases
      case 1
      with ne obtain us' where "us = k' # us'"
        by (cases us) auto
      with 1 have "prefix (sp' @ [k']) sp"
        by (simp add: prefix_def)
      with nc2 ff show ?thesis by blast
    next
      case 2
      with ne obtain us' where "us = k # us'"
        by (cases us) auto
      with 2 have "prefix (sp @ [k]) sp'"
        by (auto simp: prefix_def)
      with nc1 ff show ?thesis by blast
    qed
  qed
qed

lemma section_path_inj: "section_path n = section_path n' \<Longrightarrow> n = n'"
  by (metis join_split_on section_path_def split_on_nonempty)

lemma collides_iff:
  "collides s s' \<longleftrightarrow>
     (\<exists>x \<in> fst ` set (section_fields (snd s)). prefix (section_path (fst s) @ [x]) (section_path (fst s')))"
  by (auto simp: collides_def list_ex_iff)

lemma build_explains:
  assumes "for_loop add_section reg (Namespace [], i0, t0) = Inr (t, i, ti)"
    and "distinct (map fst reg)" and "collision_free reg"
  shows "explains (set reg) (shape t)"
  using assms
proof (induction reg arbitrary: t i ti rule: rev_induct)
  case Nil
  then show ?case by (simp add: explains_def)
next
  case (snoc s reg)
  obtain cname cobj where s: "s = (cname, cobj)" by (cases s)
  from snoc.prems(1) obtain t1 i1 ti1 where
    run1: "for_loop add_section reg (Namespace [], i0, t0) = Inr (t1, i1, ti1)"
    and step: "add_section s (t1, i1, ti1) = Inr (t, i, ti)"
    by (auto simp: for_loop_append split: sum.splits)
  from snoc.prems(2,3) have d1: "distinct (map fst reg)" and cf1: "collision_free reg"
    by (auto simp: collision_free_def list_all_iff)
  from snoc.IH [OF run1 d1 cf1] have IH: "explains (set reg) (shape t1)" .
  let ?sp = "section_path cname"
  from step s have mod: "dd_modify (section_attrs cobj i1 ti1) ?sp t1 = Inr (t, (i, ti))"
    by (auto simp: add_section_def split: sum.splits)
  have other: "fst s' \<noteq> cname \<and> \<not> collides s s' \<and> \<not> collides s' s" if "s' \<in> set reg" for s'
    using that snoc.prems(2,3) s by (force simp: collision_free_def list_all_iff)
  have compat: "r = r'" if "s' \<in> set reg" and "effect_of s' path = Some r'"
    and "effect_of s path = Some r" for s' path r r'
  proof (rule effects_compatible)
    show "section_effect ?sp (section_fields cobj) path = Some r"
      using that(3) s by (simp add: effect_of_def)
    show "section_effect (section_path (fst s')) (section_fields (snd s')) path = Some r'"
      using that(2) by (simp add: effect_of_def)
    from other [OF that(1)] s show
      "\<forall>x \<in> fst ` set (section_fields cobj). \<not> prefix (?sp @ [x]) (section_path (fst s'))"
      "\<forall>x \<in> fst ` set (section_fields (snd s')). \<not> prefix (section_path (fst s') @ [x]) ?sp"
      by (auto simp: collides_iff)
    from other [OF that(1)] show "?sp \<noteq> section_path (fst s')"
      by (auto dest: section_path_inj)
  qed
  have pre: "shape t1 ?sp = None \<or> shape t1 ?sp = Some KNode"
  proof (cases "\<exists>s' \<in> set reg. \<exists>r'. effect_of s' ?sp = Some r'")
    case True
    then obtain s' r' where s': "s' \<in> set reg" and e: "effect_of s' ?sp = Some r'"
      by blast
    have "effect_of s ?sp = Some (Some KNode)"
      using s by (simp add: effect_of_def section_effect_def)
    from compat [OF s' e this] have "r' = Some KNode" by simp
    with IH s' e show ?thesis
      by (auto simp: explains_def)
  next
    case False
    then have "\<forall>s' \<in> set reg. effect_of s' ?sp = None"
      by auto
    with IH have "shape t1 ?sp = shape (Namespace []) ?sp"
      by (simp add: explains_def)
    then show ?thesis
      by (cases ?sp) (simp_all add: shape_Namespace_Cons)
  qed
  from dd_modify_shape [OF mod pre] have sh:
    "shape t = override (effect_of s) (shape t1)"
    using s by (simp add: effect_of_def)
  show ?case
    unfolding explains_def
  proof (intro allI conjI ballI impI)
    fix path s' r
    assume "s' \<in> set (reg @ [s])" and e: "effect_of s' path = Some r"
    then consider "s' = s" | "s' \<in> set reg" by auto
    then show "shape t path = r"
    proof cases
      case 1
      with e sh show ?thesis
        by (simp add: override_def)
    next
      case 2
      show ?thesis
      proof (cases "effect_of s path")
        case None
        with sh have "shape t path = shape t1 path"
          by (simp add: override_def)
        with IH 2 e show ?thesis
          by (auto simp: explains_def)
      next
        case (Some r0)
        from compat [OF 2 e Some] Some sh show ?thesis
          by (simp add: override_def)
      qed
    qed
  next
    fix path
    assume none: "\<forall>s' \<in> set (reg @ [s]). effect_of s' path = None"
    then have "shape t path = shape t1 path"
      using sh by (simp add: override_def)
    with IH none show "shape t path = shape (Namespace []) path"
      by (simp add: explains_def)
  qed
qed

lemma output_stub_f_entries:
  "output_stub_f name d lvl =
     indent lvl @ ''class '' @ name @ '':\<newline>'' @
     concat (map (render_entry (lvl + 1)) (sort_key field_key d)) @
     (if length d = 0 then indent (lvl + 1) @ ''...\<newline>'' else [])"
  unfolding render_entry_def by (subst output_stub_f.simps) (rule refl)

lemma wf_update:
  "wf_schema (Namespace al) \<Longrightarrow> wf_schema v \<Longrightarrow> wf_schema (Namespace (AList.update k v al))"
  by (auto simp: distinct_update intro: list_all_update)

lemma wf_fold_put:
  "wf_schema (Namespace al) \<Longrightarrow> \<forall>(k, v) \<in> set fs. wf_schema v \<Longrightarrow>
     wf_schema (Namespace (fold put fs al))"
proof (induction fs arbitrary: al)
  case Nil
  then show ?case by simp
next
  case (Cons f fs)
  obtain n v where f: "f = (n, v)" by (cases f)
  from Cons.prems f have "wf_schema v"
    by simp
  with Cons.prems(1) f have "wf_schema (Namespace (put f al))"
    unfolding put_def by (simp only: prod.case wf_update)
  with Cons.IH [of "put f al"] Cons.prems show ?case
    by simp
qed

lemma wf_dd_modify:
  assumes "dd_modify (section_attrs cobj imps timps) sp t = Inr (t', r)" and "wf_schema t"
  shows "wf_schema t'"
  using assms
proof (induction sp arbitrary: t t')
  case Nil
  from Nil.prems(1) obtain imps' timps' where
    sa: "section_attrs cobj imps timps t = Inr (t', imps', timps')"
    by (cases r) auto
  show ?case
  proof (cases t)
    case (Attr a)
    with section_attrs_explicit [OF sa] show ?thesis by simp
  next
    case (Namespace al)
    with section_attrs_explicit [OF sa] have "t' = Namespace (fold put (section_fields cobj) al)"
      by simp
    moreover have "\<forall>(k, v) \<in> set (section_fields cobj). wf_schema v"
      by (auto dest: section_fields_are_attrs)
    ultimately show ?thesis
      using Nil.prems(2) Namespace by (simp only: wf_fold_put)
  qed
next
  case (Cons k ks)
  from Cons.prems(1) obtain al where t: "t = Namespace al"
    by (cases t) auto
  let ?sub = "case map_of al k of None \<Rightarrow> Namespace [] | Some sub \<Rightarrow> sub"
  from Cons.prems(1) t obtain sub' where
    rec: "dd_modify (section_attrs cobj imps timps) ks ?sub = Inr (sub', r)"
    and t': "t' = Namespace (AList.update k sub' al)"
    by (auto split: sum.splits)
  have "wf_schema ?sub"
    using Cons.prems(2) t by (auto simp: list_all_iff split: option.splits dest!: map_of_SomeD)
  from Cons.IH [OF rec this] Cons.prems(2) t t' show ?case
    by (simp only: wf_update)
qed

lemma wf_build:
  assumes "for_loop add_section reg (t0, i0, ti0) = Inr (t, i, ti)" and "wf_schema t0"
  shows "wf_schema t"
proof -
  have "wf_schema (fst (t, i, ti))"
  proof (rule for_loop_invariant [OF assms(1), where P = "\<lambda>st. wf_schema (fst st)"])
    show "wf_schema (fst (t0, i0, ti0))"
      using assms(2) by simp
  next
    fix x :: "string \<times> cls" and s s' :: "schema \<times> string list \<times> string list"
    assume "wf_schema (fst s)" and step: "add_section x s = Inr s'"
    obtain cname cobj where x: "x = (cname, cobj)" by (cases x)
    obtain c1 i1 ti1 where s: "s = (c1, i1, ti1)" by (cases s)
    obtain c2 r where s': "s' = (c2, r)" by (cases s')
    from step x s s' have "dd_modify (section_attrs cobj i1 ti1) (section_path cname) c1 = Inr (c2, r)"
      by (auto simp: add_section_def split: sum.splits)
    from wf_dd_modify [OF this] \<open>wf_schema (fst s)\<close> s s' show "wf_schema (fst s')"
      by simp
  qed
  then show ?thesis by simp
qed

lemma sort_key_keys_eq:
  fixes f :: "'a \<Rightarrow> 'b::linorder"
  assumes "distinct (map f xs)" and "distinct (map f ys)" and "f ` set xs = f ` set ys"
  shows "map f (sort_key f xs) = map f (sort_key f ys)"
proof (rule sorted_distinct_set_unique)
  show "sorted (map f (sort_key f xs))" "sorted (map f (sort_key f ys))"
    by simp_all
  from assms(1,2) show "distinct (map f (sort_key f xs))" "distinct (map f (sort_key f ys))"
    by (simp_all add: distinct_map)
  from assms(3) show "set (map f (sort_key f xs)) = set (map f (sort_key f ys))"
    by simp
qed

lemma shape_eq_kind: "shape v = shape v' \<Longrightarrow> kind_of v = kind_of v'"
  by (metis option.inject shape_Nil)

lemma shape_eq_field_key: "shape v = shape v' \<Longrightarrow> field_key (k, v) = field_key (k, v')"
  by (cases v; cases v') (auto dest: shape_eq_kind)

lemma shape_entries:
  assumes "shape (Namespace d) = shape (Namespace d')" and "distinct (map fst d)"
    and "(k, v) \<in> set d"
  shows "\<exists>v'. (k, v') \<in> set d' \<and> shape v = shape v'"
proof -
  from assms(2,3) have m: "map_of d k = Some v"
    by simp
  have eq: "shape (Namespace d) (k # rest) = shape (Namespace d') (k # rest)" for rest
    by (simp only: assms(1))
  from eq [of "[]"] m obtain v' where m': "map_of d' k = Some v'"
    by (auto simp: shape_Namespace_Cons split: option.splits)
  with eq m have "shape v rest = shape v' rest" for rest
    by (simp add: shape_Namespace_Cons)
  then have "shape v = shape v'"
    by auto
  with m' show ?thesis
    by (auto dest: map_of_SomeD)
qed

lemma same_entry_key: "same_entry x x' \<Longrightarrow> field_key x = field_key x'"
  by (cases x; cases x') (auto simp: same_entry_def dest: shape_eq_field_key)

lemma sorted_entries_related:
  assumes sh: "shape (Namespace d) = shape (Namespace d')"
    and wf: "distinct (map fst d)" and wf': "distinct (map fst d')"
    and nt: "distinct (map field_key d)"
  shows "list_all2 same_entry (sort_key field_key d) (sort_key field_key d')"
proof -
  have A: "\<exists>x' \<in> set d'. same_entry x x'" if "x \<in> set d" for x
  proof -
    obtain k v where x: "x = (k, v)" by (cases x)
    with that shape_entries [OF sh wf, of k v] obtain v' where
      "(k, v') \<in> set d'" "shape v = shape v'"
      by blast
    with x show ?thesis
      by (auto simp: same_entry_def intro!: bexI [of _ "(k, v')"])
  qed
  have B: "\<exists>x \<in> set d. same_entry x x'" if "x' \<in> set d'" for x'
  proof -
    obtain k v' where x': "x' = (k, v')" by (cases x')
    with that shape_entries [OF sh [symmetric] wf', of k v'] obtain v where
      "(k, v) \<in> set d" "shape v' = shape v"
      by blast
    with x' show ?thesis
      by (auto simp: same_entry_def intro!: bexI [of _ "(k, v)"])
  qed
  from nt have inj: "inj_on field_key (set d)"
    by (simp add: distinct_map)
  have inj': "inj_on field_key (set d')"
  proof (rule inj_onI)
    fix x' y'
    assume x': "x' \<in> set d'" and y': "y' \<in> set d'" and eq: "field_key x' = field_key y'"
    from B [OF x'] obtain x where x: "x \<in> set d" "same_entry x x'" by blast
    from B [OF y'] obtain y where y: "y \<in> set d" "same_entry y y'" by blast
    from x(2) y(2) eq have "field_key x = field_key y"
      by (simp add: same_entry_key)
    with inj x y have "x = y"
      by (auto dest: inj_onD)
    with x y have "fst x' = fst y'"
      by (simp add: same_entry_def)
    with wf' x' y' show "x' = y'"
      by (metis eq_key_imp_eq_value prod.collapse)
  qed
  from wf' have "distinct d'"
    by (simp add: distinct_map)
  with inj' have nt': "distinct (map field_key d')"
    by (simp add: distinct_map)
  have img: "field_key ` set d = field_key ` set d'"
  proof (intro set_eqI iffI)
    fix key
    assume "key \<in> field_key ` set d"
    then obtain x where "x \<in> set d" "key = field_key x" by blast
    with A show "key \<in> field_key ` set d'"
      by (metis imageI same_entry_key)
  next
    fix key
    assume "key \<in> field_key ` set d'"
    then obtain x' where "x' \<in> set d'" "key = field_key x'" by blast
    with B show "key \<in> field_key ` set d"
      by (metis imageI same_entry_key)
  qed
  from sort_key_keys_eq [OF nt nt' img] have keys:
    "map field_key (sort_key field_key d) = map field_key (sort_key field_key d')" .
  show ?thesis
  proof (rule list_all2_all_nthI)
    show "length (sort_key field_key d) = length (sort_key field_key d')"
      using keys by (metis length_map)
  next
    fix n
    assume n: "n < length (sort_key field_key d)"
    let ?x = "sort_key field_key d ! n" and ?x' = "sort_key field_key d' ! n"
    from n keys have n': "n < length (sort_key field_key d')"
      by (metis length_map)
    from n have xin: "?x \<in> set d"
      by (metis nth_mem set_sort)
    from n' have x'in: "?x' \<in> set d'"
      by (metis nth_mem set_sort)
    from keys n n' have k: "field_key ?x = field_key ?x'"
      by (metis nth_map)
    from A [OF xin] obtain y' where y': "y' \<in> set d'" "same_entry ?x y'"
      by blast
    with k have "field_key y' = field_key ?x'"
      by (simp add: same_entry_key [symmetric])
    with inj' y' x'in have "y' = ?x'"
      by (auto dest: inj_onD)
    with y' show "same_entry ?x ?x'"
      by simp
  qed
qed

lemma render_equiv:
  assumes "wf_schema t" and "wf_schema t'" and "no_ties t" and "shape t = shape t'"
    and "t = Namespace d" and "t' = Namespace d'"
  shows "output_stub_f name d lvl = output_stub_f name d' lvl"
  using assms
proof (induction t arbitrary: t' d d' name lvl)
  case (Attr a)
  then show ?case by simp
next
  case (Namespace al)
  from Namespace.prems have d: "al = d" by simp
  from Namespace.prems d have sh: "shape (Namespace d) = shape (Namespace d')"
    and wf: "distinct (map fst d)" and wf': "distinct (map fst d')"
    and nt: "distinct (map field_key d)"
    by simp_all
  from sorted_entries_related [OF sh wf wf' nt] have rel:
    "list_all2 same_entry (sort_key field_key d) (sort_key field_key d')" .
  have entry: "render_entry l x = render_entry l x'"
    if "x \<in> set d" and "x' \<in> set d'" and "same_entry x x'" for x x' l
  proof -
    obtain k v where x: "x = (k, v)" by (cases x)
    obtain k' v' where x': "x' = (k', v')" by (cases x')
    from that(3) x x' have kk: "k' = k" and s: "shape v = shape v'"
      by (simp_all add: same_entry_def)
    show ?thesis
    proof (cases v)
      case (Attr a)
      with s have "v' = Attr a"
        by (cases v') (auto dest: shape_eq_kind)
      with Attr x x' kk show ?thesis by simp
    next
      case v: (Namespace dd)
      with s obtain dd' where v': "v' = Namespace dd'"
        by (cases v') (auto dest: shape_eq_kind)
      from that(1) x Namespace.prems(1,3) d have "wf_schema v" "no_ties v"
        by (auto simp: list_all_iff)
      moreover from that(2) x' Namespace.prems(2,6) have "wf_schema v'"
        by (auto simp: list_all_iff)
      moreover from that(1) x d have "v \<in> Basic_BNFs.snds x" "x \<in> set al"
        by simp_all
      ultimately have "output_stub_f k dd l = output_stub_f k dd' l"
        using Namespace.IH [of x v v' dd dd' k l] s v v' by simp
      with x x' kk v v' show ?thesis
        by (simp add: render_entry_def)
    qed
  qed
  have body: "map (render_entry l) xs = map (render_entry l) xs'"
    if "list_all2 same_entry xs xs'" and "set xs \<subseteq> set d" and "set xs' \<subseteq> set d'" for xs xs' l
    using that by (induction xs xs' rule: list_all2_induct) (auto intro: entry)
  from rel have len: "length d = length d'"
    by (metis length_sort list_all2_lengthD)
  from body [OF rel] have
    "map (render_entry (lvl + 1)) (sort_key field_key d) =
     map (render_entry (lvl + 1)) (sort_key field_key d')"
    by simp
  with len show ?case
    by (simp only: output_stub_f_entries)
qed

lemma build_imports:
  assumes "for_loop add_section reg (t0, i0, ti0) = Inr (t, i, ti)"
  shows "i = i0 @ concat (map (section_imports \<circ> snd) reg) \<and>
         ti = ti0 @ concat (map (section_typing_imports \<circ> snd) reg)"
  using assms
proof (induction reg arbitrary: t0 i0 ti0)
  case Nil
  then show ?case by simp
next
  case (Cons s reg)
  obtain cname cobj where s: "s = (cname, cobj)" by (cases s)
  from Cons.prems s obtain t1 i1 ti1 where
    step: "add_section (cname, cobj) (t0, i0, ti0) = Inr (t1, i1, ti1)"
    and rest: "for_loop add_section reg (t1, i1, ti1) = Inr (t, i, ti)"
    by (auto split: sum.splits)
  from step have "dd_modify (section_attrs cobj i0 ti0) (section_path cname) t0 = Inr (t1, (i1, ti1))"
    by (auto simp: add_section_def split: sum.splits)
  from dd_modify_get [OF this] obtain sub sub' where
    "section_attrs cobj i0 ti0 sub = Inr (sub', i1, ti1)"
    by blast
  from section_attrs_explicit [OF this] have
    "i1 = i0 @ section_imports cobj" "ti1 = ti0 @ section_typing_imports cobj"
    by simp_all
  with Cons.IH [OF rest] s show ?case
    by simp
qed

text \<open>
  A run that succeeds in one order succeeds in every order, when no section's path
  runs through a field of another: each section's own two loops succeed on any
  namespace, and the walk to the section's namespace meets no field.
\<close>

lemma for_loop_steps:
  assumes "for_loop body xs s = Inr s'" and "x \<in> set xs"
  shows "\<exists>s1 s2. body x s1 = Inr s2"
  using assms
proof (induction xs arbitrary: s)
  case Nil
  then show ?case by simp
next
  case (Cons y xs)
  from Cons.prems(1) obtain s1 where step: "body y s = Inr s1" and rest: "for_loop body xs s1 = Inr s'"
    by (auto split: sum.splits)
  show ?case
  proof (cases "x = y")
    case True
    with step show ?thesis by blast
  next
    case False
    with Cons.prems(2) have "x \<in> set xs" by simp
    from Cons.IH [OF rest this] show ?thesis .
  qed
qed

lemma infer_loop_total:
  "\<exists>al' imps'. for_loop (infer_attr docs) attrs (Namespace al, imps) = Inr (Namespace al', imps')"
proof (induction attrs arbitrary: al imps)
  case Nil
  then show ?case by simp
next
  case (Cons x attrs)
  obtain n v where x: "x = (n, v)" by (cases x)
  have "\<exists>al1 imps1. infer_attr docs (n, v) (Namespace al, imps) = Inr (Namespace al1, imps1)"
    by (simp add: infer_attr_def Let_def)
  then obtain al1 imps1 where
    "infer_attr docs (n, v) (Namespace al, imps) = Inr (Namespace al1, imps1)"
    by blast
  with Cons.IH [of al1 imps1] x show ?case
    by auto
qed

lemma declare_attr_module:
  "declare_attr docs (n, t) s = Inr s' \<Longrightarrow>
     (\<exists>names. ann_typing_imports t = Inr names) \<and> (\<exists>tname. ann_tname t = Inr tname) \<and>
     (\<exists>md. ann_module t = Inr md)"
  by (cases s) (auto simp: declare_attr_def split: sum.splits)

lemma declare_loop_total:
  assumes "\<forall>(n, t) \<in> set anns.
      (\<exists>names. ann_typing_imports t = Inr names) \<and> (\<exists>tname. ann_tname t = Inr tname) \<and>
      (\<exists>md. ann_module t = Inr md)"
  shows "\<exists>r. for_loop (declare_attr docs) anns (Namespace al, imps, timps) = Inr r"
  using assms
proof (induction anns arbitrary: al imps timps)
  case Nil
  then show ?case by simp
next
  case (Cons x anns)
  obtain n t where x: "x = (n, t)" by (cases x)
  with Cons.prems obtain names tname md where
    "ann_typing_imports t = Inr names" "ann_tname t = Inr tname" "ann_module t = Inr md"
    by auto
  then have "\<exists>al1 imps1 timps1.
      declare_attr docs (n, t) (Namespace al, imps, timps) = Inr (Namespace al1, imps1, timps1)"
    by (cases "ann_iname t") (simp_all add: declare_attr_def)
  then obtain al1 imps1 timps1 where
    "declare_attr docs (n, t) (Namespace al, imps, timps) = Inr (Namespace al1, imps1, timps1)"
    by blast
  with Cons.IH [of al1 imps1 timps1] Cons.prems x show ?case
    by auto
qed

lemma section_attrs_total:
  assumes "section_attrs cobj imps timps sub = Inr r"
  shows "\<exists>r'. section_attrs cobj imps' timps' (Namespace al) = Inr r'"
proof -
  from assms obtain s1 where
    "for_loop (declare_attr (docstrings_of cobj)) (annotations_of cobj) s1 = Inr r"
    by (auto simp: section_attrs_def annotations_of_def split: sum.splits)
  from for_loop_steps [OF this] have "\<forall>(n, t) \<in> set (annotations_of cobj).
      (\<exists>names. ann_typing_imports t = Inr names) \<and> (\<exists>tname. ann_tname t = Inr tname) \<and>
      (\<exists>md. ann_module t = Inr md)"
    by (auto dest!: declare_attr_module)
  from declare_loop_total [OF this] infer_loop_total [of "docstrings_of cobj" "cls_attrs cobj" al imps']
  show ?thesis
    by (auto simp: section_attrs_def annotations_of_def)
qed

lemma dd_modify_total:
  assumes "\<And>al. \<exists>r. body (Namespace al) = Inr r"
    and "\<forall>p. prefix p sp \<longrightarrow> shape t p = None \<or> shape t p = Some KNode"
  shows "\<exists>r. dd_modify body sp t = Inr r"
  using assms(2)
proof (induction sp arbitrary: t)
  case Nil
  then obtain al where "t = Namespace al"
    by (cases t) auto
  with assms(1) show ?case by simp
next
  case (Cons k ks)
  from Cons.prems [rule_format, of "[]"] obtain al where t: "t = Namespace al"
    by (cases t) auto
  let ?sub = "case map_of al k of None \<Rightarrow> Namespace [] | Some sub \<Rightarrow> sub"
  have "\<forall>p. prefix p ks \<longrightarrow> shape ?sub p = None \<or> shape ?sub p = Some KNode"
  proof (intro allI impI)
    fix p
    assume p: "prefix p ks"
    show "shape ?sub p = None \<or> shape ?sub p = Some KNode"
    proof (cases "map_of al k")
      case None
      then show ?thesis
        by (cases p) (simp_all add: shape_Namespace_Cons)
    next
      case (Some s)
      from p have "prefix (k # p) (k # ks)" by simp
      with Cons.prems have "shape t (k # p) = None \<or> shape t (k # p) = Some KNode"
        by blast
      with Some t show ?thesis
        by (simp add: shape_Namespace_Cons)
    qed
  qed
  from Cons.IH [OF this] obtain r where "dd_modify body ks ?sub = Inr r"
    by blast
  with t show ?case
    by (cases r) simp
qed

lemma explained_prefix:
  assumes ex: "explains (set reg) sh"
    and other: "\<And>s'. s' \<in> set reg \<Longrightarrow> fst s' \<noteq> fst s \<and> \<not> collides s s' \<and> \<not> collides s' s"
    and p: "prefix p (section_path (fst s))"
  shows "sh p = None \<or> sh p = Some KNode"
proof (cases "\<exists>s' \<in> set reg. \<exists>r'. effect_of s' p = Some r'")
  case True
  then obtain s' r' where s': "s' \<in> set reg" and e: "effect_of s' p = Some r'"
    by blast
  from p have e0: "effect_of s p = Some (Some KNode)"
    by (simp add: effect_of_def section_effect_def)
  have "Some KNode = r'"
  proof (rule effects_compatible)
    show "section_effect (section_path (fst s)) (section_fields (snd s)) p = Some (Some KNode)"
      using e0 by (simp add: effect_of_def)
    show "section_effect (section_path (fst s')) (section_fields (snd s')) p = Some r'"
      using e by (simp add: effect_of_def)
    from other [OF s'] show
      "\<forall>x \<in> fst ` set (section_fields (snd s)). \<not> prefix (section_path (fst s) @ [x]) (section_path (fst s'))"
      "\<forall>x \<in> fst ` set (section_fields (snd s')). \<not> prefix (section_path (fst s') @ [x]) (section_path (fst s))"
      by (auto simp: collides_iff)
    from other [OF s'] show "section_path (fst s) \<noteq> section_path (fst s')"
      by (auto dest: section_path_inj)
  qed
  with ex s' e show ?thesis
    by (auto simp: explains_def)
next
  case False
  then have "\<forall>s' \<in> set reg. effect_of s' p = None"
    by auto
  with ex have "sh p = shape (Namespace []) p"
    by (simp add: explains_def)
  then show ?thesis
    by (cases p) (simp_all add: shape_Namespace_Cons)
qed

lemma build_total:
  assumes "distinct (map fst reg)" and "collision_free reg"
    and "\<forall>(cname, cobj) \<in> set reg. \<exists>imps timps sub r. section_attrs cobj imps timps sub = Inr r"
  shows "\<exists>st. for_loop add_section reg (Namespace [], [], []) = Inr st"
  using assms
proof (induction reg rule: rev_induct)
  case Nil
  then show ?case by simp
next
  case (snoc s reg)
  obtain cname cobj where s: "s = (cname, cobj)" by (cases s)
  from snoc.prems have d1: "distinct (map fst reg)" and cf1: "collision_free reg"
    and ok1: "\<forall>(cname, cobj) \<in> set reg. \<exists>imps timps sub r. section_attrs cobj imps timps sub = Inr r"
    by (auto simp: collision_free_def list_all_iff)
  from snoc.IH [OF d1 cf1 ok1] obtain t1 i1 ti1 where
    run1: "for_loop add_section reg (Namespace [], [], []) = Inr (t1, i1, ti1)"
    by (metis prod_cases3)
  from build_explains [OF run1 d1 cf1] have ex: "explains (set reg) (shape t1)" .
  have other: "fst s' \<noteq> fst s \<and> \<not> collides s s' \<and> \<not> collides s' s" if "s' \<in> set reg" for s'
    using that snoc.prems(1,2) s by (force simp: collision_free_def list_all_iff)
  have pre: "\<forall>p. prefix p (section_path cname) \<longrightarrow> shape t1 p = None \<or> shape t1 p = Some KNode"
  proof (intro allI impI)
    fix p
    assume "prefix p (section_path cname)"
    with s have "prefix p (section_path (fst s))" by simp
    from explained_prefix [OF ex other this] show "shape t1 p = None \<or> shape t1 p = Some KNode" .
  qed
  from snoc.prems(3) s obtain imps timps sub r where
    "section_attrs cobj imps timps sub = Inr r"
    by auto
  from section_attrs_total [OF this] have
    body: "\<And>al. \<exists>r'. section_attrs cobj i1 ti1 (Namespace al) = Inr r'"
    by blast
  from dd_modify_total [where body = "section_attrs cobj i1 ti1", OF body pre] obtain r' where
    "dd_modify (section_attrs cobj i1 ti1) (section_path cname) t1 = Inr r'"
    by blast
  then obtain st where "add_section s (t1, i1, ti1) = Inr st"
    using s by (cases r') (auto simp: add_section_def)
  with run1 show ?case
    by (cases st) (simp add: for_loop_append)
qed

lemma build_sections_ok:
  assumes "for_loop add_section reg st0 = Inr st" and "(cname, cobj) \<in> set reg"
  shows "\<exists>imps timps sub r. section_attrs cobj imps timps sub = Inr r"
proof -
  from for_loop_steps [OF assms] obtain s1 s2 where step: "add_section (cname, cobj) s1 = Inr s2"
    by blast
  obtain t1 i1 ti1 where s1: "s1 = (t1, i1, ti1)" by (cases s1)
  from step s1 obtain r where
    "dd_modify (section_attrs cobj i1 ti1) (section_path cname) t1 = Inr r"
    by (auto simp: add_section_def split: sum.splits)
  then obtain t2 r2 where "dd_modify (section_attrs cobj i1 ti1) (section_path cname) t1 = Inr (t2, r2)"
    by (cases r) auto
  from dd_modify_get [OF this] show ?thesis
    by blast
qed

text \<open>
  Where no two entries of a block have the same sort key and no section's path runs
  through a field of another, the order of registration does not matter. Let the same
  sections be registered in two orders, the names distinct, and let the schema tree of
  the first run satisfy the two conditions. Then both runs emit a stub, and the same
  text: the class tree, the line of typing imports and the import lines do not depend
  on the order of registration, nor on the order in which the annotations were
  rendered. (The type renderer and the collector of typing imports are functions of
  the descriptor alone: they read and write no state.)
\<close>

lemma stub_independent_of_order:
  assumes "distinct (map fst reg)" and "distinct (map fst reg')" and "set reg' = set reg"
    and "collision_free reg"
    and "build_schema reg = Inr (config, imps, timps)" and "no_ties config"
  shows "\<exists>text'. output_stub base_path reg = Inr text' \<and> output_stub base_path reg' = Inr text'"
proof -
  from assms(4,3) have cf': "collision_free reg'"
    by (simp add: collision_free_def list_all_iff)
  have "\<forall>(cname, cobj) \<in> set reg'. \<exists>imps timps sub r. section_attrs cobj imps timps sub = Inr r"
    using build_sections_ok [OF assms(5) [unfolded build_schema_def]] assms(3) by auto
  from build_total [OF assms(2) cf' this] obtain config' imps' timps' where
    b': "build_schema reg' = Inr (config', imps', timps')"
    unfolding build_schema_def by (metis prod_cases3)
  from build_explains [OF assms(5) [unfolded build_schema_def] assms(1,4)]
    build_explains [OF b' [unfolded build_schema_def] assms(2) cf'] assms(3)
  have ex: "explains (set reg) (shape config)" and sh: "shape config = shape config'"
    by (auto intro: explains_unique)
  have wf: "wf_schema config" "wf_schema config'"
    using wf_build [OF assms(5) [unfolded build_schema_def]]
      wf_build [OF b' [unfolded build_schema_def]] by simp_all
  have "shape config [] = Some KNode"
  proof (cases reg)
    case Nil
    with assms(5) show ?thesis by (auto simp: build_schema_def)
  next
    case (Cons s rest)
    then have "s \<in> set reg" by simp
    moreover have "effect_of s [] = Some (Some KNode)"
      by (simp add: effect_of_def)
    moreover from ex have "\<forall>s \<in> set reg. \<forall>r. effect_of s [] = Some r \<longrightarrow> shape config [] = r"
      unfolding explains_def by blast
    ultimately show ?thesis
      by blast
  qed
  then obtain d where c: "config = Namespace d"
    by (cases config) auto
  with sh obtain d' where c': "config' = Namespace d'"
    by (cases config') (auto dest: shape_eq_kind)
  from render_equiv [OF wf assms(6) sh c c'] have
    f: "output_stub_f ''Config'' d 0 = output_stub_f ''Config'' d' 0" .
  from build_imports [OF assms(5) [unfolded build_schema_def]]
    build_imports [OF b' [unfolded build_schema_def]] assms(3)
  have "set imps = set imps'" "set timps = set timps'"
    by simp_all
  then have "sorted_set imps = sorted_set imps'" "sorted_set timps = sorted_set timps'"
    by (simp_all add: sorted_set_def sorted_list_of_set_sort_remdups [symmetric])
  with f b' c c' assms(5) show ?thesis
    by (simp add: output_stub_def stub_text_def)
qed

lemma build_tie_1:
  "build_schema [(''@base'', tie_root), (''_a'', tie_section)] =
     Inr (Namespace [(''a'', Attr (ConfigAttr ''int'' [])),
                     (''_a'', Namespace [(''x'', Attr (ConfigAttr ''int'' []))])], [], [])"
  by (simp add: build_schema_def add_section_def section_path_def section_attrs_def infer_attr_def
      startswith_def tie_root_def tie_section_def example_class_def docstrings_of_def)

lemma build_tie_2:
  "build_schema [(''_a'', tie_section), (''@base'', tie_root)] =
     Inr (Namespace [(''_a'', Namespace [(''x'', Attr (ConfigAttr ''int'' []))]),
                     (''a'', Attr (ConfigAttr ''int'' []))], [], [])"
  by (simp add: build_schema_def add_section_def section_path_def section_attrs_def infer_attr_def
      startswith_def tie_root_def tie_section_def example_class_def docstrings_of_def)

lemma f_tie_inner:
  "output_stub_f ''_a'' [(''x'', Attr (ConfigAttr ''int'' []))] (Suc 0) =
     ''    class _a:\<newline>        x: int\<newline>''"
  by (subst output_stub_f.simps) (simp add: indent_def)

lemma f_tie_1:
  "output_stub_f ''Config''
     [(''a'', Attr (ConfigAttr ''int'' [])),
      (''_a'', Namespace [(''x'', Attr (ConfigAttr ''int'' []))])] 0 =
   ''class Config:\<newline>    a: int\<newline>    class _a:\<newline>        x: int\<newline>''"
  by (subst output_stub_f.simps) (simp add: indent_def f_tie_inner)

lemma f_tie_2:
  "output_stub_f ''Config''
     [(''_a'', Namespace [(''x'', Attr (ConfigAttr ''int'' []))]),
      (''a'', Attr (ConfigAttr ''int'' []))] 0 =
   ''class Config:\<newline>    class _a:\<newline>        x: int\<newline>    a: int\<newline>''"
  by (subst output_stub_f.simps) (simp add: indent_def f_tie_inner)

text \<open>
  Claim C6. The stub is not a function of the set of registered sections. With a root
  attribute \<^verbatim>\<open>a\<close> and a section \<^verbatim>\<open>_a\<close>, the field and the namespace have the same
  sort key \<^verbatim>\<open>_a\<close> (the key of a field is its name after an underscore, the key of a
  namespace its bare name), the stable sort leaves them in insertion order, and the
  two orders of registration emit different stubs.
\<close>

theorem registration_order_changes_stub:
  "set [(''@base'', tie_root), (''_a'', tie_section)] =
     set [(''_a'', tie_section), (''@base'', tie_root)] \<and>
   output_stub ''config.py'' [(''@base'', tie_root), (''_a'', tie_section)] \<noteq>
   output_stub ''config.py'' [(''_a'', tie_section), (''@base'', tie_root)]"
  by (auto simp: output_stub_def build_tie_1 build_tie_2 stub_text_def f_tie_1 f_tie_2)

lemma build_example_1:
  "build_schema [(''net.http'', example_section), (''@base'', example_root)] =
     Inr (Namespace
            [(''net'', Namespace [(''http'', Namespace
               [(''_hidden'', Attr (ConfigAttr ''int'' [])),
                (''path'', Attr (ConfigAttr ''PosixPath'' [])),
                (''port'', Attr (ConfigAttr ''str'' ''The port to listen on.'')),
                (''timeout'', Attr (ConfigAttr ''Optional[float]'' []))])]),
             (''debug'', Attr (ConfigAttr ''bool'' []))],
          [''from pathlib import PosixPath''], [''Optional''])"
  by (simp add: build_schema_def add_section_def section_path_def section_attrs_def infer_attr_def
      declare_attr_def startswith_def import_line_def example_section_def example_root_def
      example_class_def docstrings_of_def)

lemma collision_free_example:
  "collision_free [(''net.http'', example_section), (''@base'', example_root)]"
  by (simp add: collision_free_def collides_def section_path_def section_fields_def
      annotations_of_def inferred_field_def declared_field_def startswith_def
      example_section_def example_root_def example_class_def)

lemma stub_independent_of_order_example:
  "collision_free [(''net.http'', example_section), (''@base'', example_root)] \<and>
   no_ties (Namespace
            [(''net'', Namespace [(''http'', Namespace
               [(''_hidden'', Attr (ConfigAttr ''int'' [])),
                (''path'', Attr (ConfigAttr ''PosixPath'' [])),
                (''port'', Attr (ConfigAttr ''str'' ''The port to listen on.'')),
                (''timeout'', Attr (ConfigAttr ''Optional[float]'' []))])]),
             (''debug'', Attr (ConfigAttr ''bool'' []))]) \<and>
   output_stub ''config.py'' [(''net.http'', example_section), (''@base'', example_root)] =
   output_stub ''config.py'' [(''@base'', example_root), (''net.http'', example_section)] \<and>
   isl (output_stub ''config.py'' [(''@base'', example_root), (''net.http'', example_section)]) = False"
proof -
  let ?reg = "[(''net.http'', example_section), (''@base'', example_root)]"
  let ?reg' = "[(''@base'', example_root), (''net.http'', example_section)]"
  let ?config = "Namespace
            [(''net'', Namespace [(''http'', Namespace
               [(''_hidden'', Attr (ConfigAttr ''int'' [])),
                (''path'', Attr (ConfigAttr ''PosixPath'' [])),
                (''port'', Attr (ConfigAttr ''str'' ''The port to listen on.'')),
                (''timeout'', Attr (ConfigAttr ''Optional[float]'' []))])]),
             (''debug'', Attr (ConfigAttr ''bool'' []))]"
  have d: "distinct (map fst ?reg)" "distinct (map fst ?reg')" "set ?reg' = set ?reg"
    by auto
  have nt: "no_ties ?config"
    by simp
  from stub_independent_of_order [OF d collision_free_example build_example_1 nt]
  obtain text' where "output_stub ''config.py'' ?reg = Inr text'"
    and "output_stub ''config.py'' ?reg' = Inr text'"
    by blast
  with collision_free_example nt show ?thesis
    by simp
qed

text \<open>
  A section registered below a field of another is the second way in which the order
  shows: registered after the section that owns the field, it finds a \<^verbatim>\<open>ConfigAttr\<close>
  where it looks for its dictionary and the run raises; registered before, its
  namespace is replaced by the field and the run emits a stub.
\<close>

lemma collision_order_dependent:
  "output_stub ''config.py'' [(''a'', outer_section), (''a.b'', inner_section)] = Inl TypeError \<and>
   isl (output_stub ''config.py'' [(''a.b'', inner_section), (''a'', outer_section)]) = False"
  by (simp add: output_stub_def build_schema_def add_section_def section_path_def section_attrs_def
      infer_attr_def startswith_def outer_section_def inner_section_def example_class_def
      docstrings_of_def stub_text_def)

end
